theory Spec2Isabelle
  imports Main "HOL-Library.Word"
begin

unbundle bit_operations_syntax

section \<open>Bytes, errors and Python values\<close>

text \<open>
  The program is \<^verbatim>\<open>encrypt.py\<close>: a chunked, multi-recipient encryption format on top
  of NaCl (\<^verbatim>\<open>nacl.bindings\<close>), HMAC-SHA512 (\<^verbatim>\<open>hmac\<close>) and MessagePack
  (\<^verbatim>\<open>umsgpack\<close>). A Python \<^verbatim>\<open>bytes\<close> object is a list of 8-bit words.
\<close>

type_synonym byte = "8 word"
type_synonym bytes = "byte list"

text \<open>
  Every exception the two functions can raise is a value. \<^verbatim>\<open>RecipientNotFound\<close> is
  \<^verbatim>\<open>RuntimeError('recipient key not found')\<close>, \<^verbatim>\<open>MacMismatch\<close> is
  \<^verbatim>\<open>RuntimeError("MAC mismatch!")\<close>, \<^verbatim>\<open>UnsupportedVersion\<close> is the failed
  \<^verbatim>\<open>assert version == 1\<close>, \<^verbatim>\<open>MalformedFrame\<close> is any exception of
  \<^verbatim>\<open>umsgpack.unpack\<close>, \<^verbatim>\<open>PackError\<close> any exception of \<^verbatim>\<open>umsgpack.packb\<close>, and
  \<^verbatim>\<open>AuthenticationFailure\<close> any exception of a NaCl primitive.
\<close>

datatype error =
    MalformedFrame
  | PackError
  | UnsupportedVersion
  | RecipientNotFound
  | AuthenticationFailure
  | MacMismatch
  | TypeError
  | ValueError
  | KeyError
  | IndexError
  | OverflowError

text \<open>
  The values \<^verbatim>\<open>umsgpack\<close> packs and unpacks: \<^verbatim>\<open>None\<close>, \<^verbatim>\<open>bool\<close>, \<^verbatim>\<open>int\<close>,
  \<^verbatim>\<open>bytes\<close>, \<^verbatim>\<open>str\<close>, \<^verbatim>\<open>list\<close> and \<^verbatim>\<open>dict\<close>. A \<^verbatim>\<open>dict\<close> is an association
  list in insertion order; a Python \<^verbatim>\<open>dict\<close> never holds a key twice, and a lookup
  takes the first entry with the key. Floats and extension objects are outside the model.
\<close>

datatype mp =
    MNone
  | MBool bool
  | MInt int
  | MBytes bytes
  | MStr string
  | MList "mp list"
  | MDict "(mp \<times> mp) list"

subsection \<open>\<^verbatim>\<open>int.to_bytes(length, byteorder='big')\<close>\<close>

fun be_bytes :: "nat \<Rightarrow> nat \<Rightarrow> bytes" where
  "be_bytes 0 k = []"
| "be_bytes (Suc n) k = be_bytes n (k div 256) @ [of_nat (k mod 256)]"

text \<open>The counters of the program start at 0 and only grow: they are naturals.
  \<^verbatim>\<open>to_bytes\<close> raises \<^verbatim>\<open>OverflowError\<close> when the value needs more than \<open>n\<close> bytes,
  that is when something is left of it after \<open>n\<close> bytes have been taken.\<close>

fun high_part :: "nat \<Rightarrow> nat \<Rightarrow> nat" where
  "high_part 0 k = k"
| "high_part (Suc n) k = high_part n (k div 256)"

definition to_bytes :: "nat \<Rightarrow> nat \<Rightarrow> error + bytes" where
  "to_bytes k n = (if high_part n k = 0 then Inr (be_bytes n k) else Inl OverflowError)"

text \<open>Reading a big-endian byte string back, used to state that \<open>be_bytes\<close> loses
  nothing.\<close>

fun be_nat :: "bytes \<Rightarrow> nat" where
  "be_nat bs = foldl (\<lambda>acc b. acc * 256 + unat b) 0 bs"

subsection \<open>Slices\<close>



section \<open>Utility functions\<close>

subsection \<open>\<^verbatim>\<open>chunks_with_empty\<close>\<close>




text \<open>The chunks the specification describes: consecutive pieces of \<open>n\<close> bytes, the last
  one possibly shorter.\<close>

fun pieces :: "nat \<Rightarrow> 'a list \<Rightarrow> 'a list list" where
  "pieces n xs = (if n = 0 \<or> xs = [] then [] else take n xs # pieces n (drop n xs))"

declare pieces.simps [simp del]

section \<open>The libraries the program calls\<close>

text \<open>
  The NaCl bindings, HMAC-SHA512 and the MessagePack codec are libraries, not code of the
  program: they are the fields of a parameter \<open>P\<close>. A primitive that raises returns
  \<open>None\<close>. The arguments are in the order of the keywords at the call sites:
  \<^verbatim>\<open>crypto_box(message, nonce, sk, pk)\<close>, \<^verbatim>\<open>crypto_box_open(ciphertext, nonce, sk, pk)\<close>,
  \<^verbatim>\<open>crypto_secretbox(message, nonce, key)\<close>,
  \<^verbatim>\<open>crypto_secretbox_open(ciphertext, nonce, key)\<close>; \<open>hmac_sha512 key msg\<close> is
  \<^verbatim>\<open>hmac.new(key, digestmod='sha512')\<close> updated with \<open>msg\<close> and digested.
  \<open>unpack\<close> reads one object from the front of the bytes left in a stream and returns it
  with the number of bytes it has read; \<^verbatim>\<open>umsgpack.unpackb\<close> is the same reader on a
  buffer of its own.
\<close>

record prims =
  scalarmult_base :: "bytes \<Rightarrow> bytes option"
  crypto_box :: "bytes \<Rightarrow> bytes \<Rightarrow> bytes \<Rightarrow> bytes \<Rightarrow> bytes option"
  crypto_box_open :: "bytes \<Rightarrow> bytes \<Rightarrow> bytes \<Rightarrow> bytes \<Rightarrow> bytes option"
  crypto_secretbox :: "bytes \<Rightarrow> bytes \<Rightarrow> bytes \<Rightarrow> bytes option"
  crypto_secretbox_open :: "bytes \<Rightarrow> bytes \<Rightarrow> bytes \<Rightarrow> bytes option"
  hmac_sha512 :: "bytes \<Rightarrow> bytes \<Rightarrow> bytes"
  packb :: "mp \<Rightarrow> bytes option"
  unpack :: "bytes \<Rightarrow> (mp \<times> nat) option"

text \<open>
  The draws of \<^verbatim>\<open>os.urandom\<close> in one call of \<^verbatim>\<open>encrypt\<close>: the encryption key
  (32 bytes), the start of the recipients' nonce (16 bytes) and one MAC key (16 bytes) for
  each group number.
\<close>

record entropy =
  rand_encryption_key :: bytes
  rand_nonce_start :: bytes
  rand_mac_key :: "nat \<Rightarrow> bytes"

section \<open>Python operations on unpacked values\<close>

text \<open>\<^verbatim>\<open>v == b\<close> for a \<^verbatim>\<open>bytes\<close> object \<open>b\<close>, and \<^verbatim>\<open>v == i\<close> for an integer \<open>i\<close>
  (\<^verbatim>\<open>True == 1\<close> and \<^verbatim>\<open>False == 0\<close> hold in Python).\<close>

definition py_eq_bytes :: "mp \<Rightarrow> bytes \<Rightarrow> bool" where
  "py_eq_bytes v b = (v = MBytes b)"

fun py_eq_int :: "mp \<Rightarrow> int \<Rightarrow> bool" where
  "py_eq_int (MInt j) i = (j = i)"
| "py_eq_int (MBool b) i = ((if b then 1 else 0) = i)"
| "py_eq_int _ i = False"

text \<open>Equality of two keys of a \<^verbatim>\<open>dict\<close>; the keys are hashable: no list, no dict.\<close>

fun py_key_eq :: "mp \<Rightarrow> mp \<Rightarrow> bool" where
  "py_key_eq (MInt i) k = py_eq_int k i"
| "py_key_eq (MBool b) k = py_eq_int k (if b then 1 else 0)"
| "py_key_eq k' k = (k' = k)"

fun hashable :: "mp \<Rightarrow> bool" where
  "hashable (MList _) = False"
| "hashable (MDict _) = False"
| "hashable _ = True"

text \<open>An index into a sequence of length \<open>len\<close>: an \<^verbatim>\<open>int\<close> (or \<^verbatim>\<open>bool\<close>), negative
  ones counting from the end.\<close>

fun py_index :: "nat \<Rightarrow> mp \<Rightarrow> error + nat" where
  "py_index len (MInt i) =
     (if 0 \<le> i \<and> i < int len then Inr (nat i)
      else if i < 0 \<and> - int len \<le> i then Inr (nat (int len + i))
      else Inl IndexError)"
| "py_index len (MBool b) =
     (if (if b then 1 else 0) < len then Inr (if b then 1 else 0) else Inl IndexError)"
| "py_index len _ = Inl TypeError"

text \<open>\<^verbatim>\<open>obj[key]\<close>\<close>

fun py_getitem :: "mp \<Rightarrow> mp \<Rightarrow> error + mp" where
  "py_getitem (MDict kvs) k =
     (if hashable k
      then (case find (\<lambda>kv. py_key_eq (fst kv) k) kvs of
              None \<Rightarrow> Inl KeyError
            | Some kv \<Rightarrow> Inr (snd kv))
      else Inl TypeError)"
| "py_getitem (MList xs) k =
     (case py_index (length xs) k of Inl e \<Rightarrow> Inl e | Inr i \<Rightarrow> Inr (xs ! i))"
| "py_getitem (MBytes bs) k =
     (case py_index (length bs) k of Inl e \<Rightarrow> Inl e | Inr i \<Rightarrow> Inr (MInt (uint (bs ! i))))"
| "py_getitem (MStr s) k =
     (case py_index (length s) k of Inl e \<Rightarrow> Inl e | Inr i \<Rightarrow> Inr (MStr [s ! i]))"
| "py_getitem _ k = Inl TypeError"

text \<open>\<^verbatim>\<open>d.get(key)\<close> with a string key: \<^verbatim>\<open>None\<close> when the key is missing. Anything but
  a \<^verbatim>\<open>dict\<close> has no such method (\<^verbatim>\<open>AttributeError\<close>, here with the type errors).\<close>

fun py_get :: "mp \<Rightarrow> mp \<Rightarrow> error + mp" where
  "py_get (MDict kvs) k =
     (case find (\<lambda>kv. py_key_eq (fst kv) k) kvs of
        None \<Rightarrow> Inr MNone
      | Some kv \<Rightarrow> Inr (snd kv))"
| "py_get _ k = Inl TypeError"

text \<open>The elements a \<^verbatim>\<open>for\<close> loop (or a tuple assignment) takes from a value: the
  items of a list, the bytes of a \<^verbatim>\<open>bytes\<close> object as integers, the characters of a
  string, the keys of a \<^verbatim>\<open>dict\<close>.\<close>

fun py_iter :: "mp \<Rightarrow> error + mp list" where
  "py_iter (MList xs) = Inr xs"
| "py_iter (MBytes bs) = Inr (map (\<lambda>b. MInt (uint b)) bs)"
| "py_iter (MStr s) = Inr (map (\<lambda>c. MStr [c]) s)"
| "py_iter (MDict kvs) = Inr (map fst kvs)"
| "py_iter _ = Inl TypeError"

section \<open>The framing layer\<close>

text \<open>
  \<^verbatim>\<open>
  def write_framed_msgpack(stream, obj):
      msgpack_bytes = umsgpack.packb(obj)
      frame = umsgpack.packb(len(msgpack_bytes))
      stream.write(frame)
      stream.write(msgpack_bytes)
  \<close>
  The output stream is the bytes written so far.
\<close>

definition write_framed_msgpack :: "prims \<Rightarrow> bytes \<Rightarrow> mp \<Rightarrow> error + bytes" where
  "write_framed_msgpack P stream obj =
     (case packb P obj of
        None \<Rightarrow> Inl PackError
      | Some msgpack_bytes \<Rightarrow>
          (case packb P (MInt (int (length msgpack_bytes))) of
             None \<Rightarrow> Inl PackError
           | Some frame \<Rightarrow> Inr (stream @ frame @ msgpack_bytes)))"

text \<open>An input stream is the bytes not yet read. \<^verbatim>\<open>umsgpack.unpack(stream)\<close> returns
  the object and leaves the stream after the bytes it has read.\<close>

definition stream_unpack :: "prims \<Rightarrow> bytes \<Rightarrow> error + (mp \<times> bytes)" where
  "stream_unpack P stream =
     (case unpack P stream of
        None \<Rightarrow> Inl MalformedFrame
      | Some (obj, k) \<Rightarrow> Inr (obj, drop k stream))"

text \<open>
  \<^verbatim>\<open>
  def read_framed_msgpack(stream):
      length = umsgpack.unpack(stream)
      print(length)
      # We discard the frame length and stream on.
      obj = umsgpack.unpack(stream)
      print(json_repr(obj))
      return obj
  \<close>
  The two \<^verbatim>\<open>print\<close> calls write to the standard output and change nothing else; so do
  the other \<^verbatim>\<open>print\<close> calls of \<^verbatim>\<open>decrypt\<close>. They are left out.
\<close>

definition read_framed_msgpack :: "prims \<Rightarrow> bytes \<Rightarrow> error + (mp \<times> bytes)" where
  "read_framed_msgpack P stream =
     (case stream_unpack P stream of
        Inl e \<Rightarrow> Inl e
      | Inr (frame_length, stream1) \<Rightarrow>
          (case stream_unpack P stream1 of
             Inl e \<Rightarrow> Inl e
           | Inr (obj, stream2) \<Rightarrow> Inr (obj, stream2)))"

text \<open>What one call of \<^verbatim>\<open>read_framed_msgpack\<close> sees: the decoded length prefix, and the
  number of bytes the second \<^verbatim>\<open>unpack\<close> reads as the body.\<close>

definition frame_length_prefix :: "prims \<Rightarrow> bytes \<Rightarrow> mp option" where
  "frame_length_prefix P stream = map_option fst (unpack P stream)"

definition frame_body_consumed :: "prims \<Rightarrow> bytes \<Rightarrow> nat option" where
  "frame_body_consumed P stream =
     (case unpack P stream of
        None \<Rightarrow> None
      | Some (frame_length, k) \<Rightarrow> map_option snd (unpack P (drop k stream)))"

section \<open>\<^verbatim>\<open>encrypt\<close>\<close>

text \<open>The two nonces of the format: \<^verbatim>\<open>recipients_nonce_start +
  recipient_num.to_bytes(8, byteorder="big")\<close> for the keys of a recipient, and
  \<^verbatim>\<open>chunknum.to_bytes(24, byteorder='big')\<close> for a chunk.\<close>

definition recipient_nonce :: "bytes \<Rightarrow> nat \<Rightarrow> error + bytes" where
  "recipient_nonce recipients_nonce_start recipient_num =
     (case to_bytes recipient_num 8 of
        Inl e \<Rightarrow> Inl e
      | Inr counter \<Rightarrow> Inr (recipients_nonce_start @ counter))"

definition chunk_nonce :: "nat \<Rightarrow> error + bytes" where
  "chunk_nonce chunknum = to_bytes chunknum 24"

text \<open>The dictionary \<^verbatim>\<open>keys\<close> of one recipient (lines 96 to 105).\<close>

definition make_keys :: "bool \<Rightarrow> bytes \<Rightarrow> nat \<Rightarrow> bytes \<Rightarrow> mp" where
  "make_keys need_macs encryption_key group_num mac_key =
     (if need_macs
      then MDict [(MStr ''encryption_key'', MBytes encryption_key),
                  (MStr ''mac_group'', MInt (int group_num)),
                  (MStr ''mac_key'', MBytes mac_key)]
      else MDict [(MStr ''encryption_key'', MBytes encryption_key)])"

text \<open>
  The loop over the groups and their recipients (lines 91 to 115) does two things for
  each recipient: it builds \<^verbatim>\<open>keys\<close>, which cannot fail, and it packs and boxes them under
  the next recipient number. \<open>key_bundles\<close> lists the recipients with their \<^verbatim>\<open>keys\<close> in
  the order of the loop, \<open>group_num\<close> being the counter of \<^verbatim>\<open>enumerate\<close>;
  \<open>box_recipients\<close> packs and boxes them in that order, \<open>recipient_num\<close> counting, and
  stops at the first exception.
\<close>

fun key_bundles :: "bool \<Rightarrow> bytes \<Rightarrow> entropy \<Rightarrow> nat \<Rightarrow> bytes list list \<Rightarrow> (bytes \<times> mp) list" where
  "key_bundles need_macs encryption_key E group_num [] = []"
| "key_bundles need_macs encryption_key E group_num (grp # groups) =
     map (\<lambda>recipient. (recipient, make_keys need_macs encryption_key group_num (rand_mac_key E group_num)))
       grp
     @ key_bundles need_macs encryption_key E (Suc group_num) groups"

text \<open>\<^verbatim>\<open>mac_keys\<close>: one key for each group when MACs are needed, none otherwise.\<close>

definition group_mac_keys :: "bool \<Rightarrow> entropy \<Rightarrow> bytes list list \<Rightarrow> bytes list" where
  "group_mac_keys need_macs E recipient_groups =
     (if need_macs then map (rand_mac_key E) [0..<length recipient_groups] else [])"

fun box_recipients ::
  "prims \<Rightarrow> bytes \<Rightarrow> bytes \<Rightarrow> nat \<Rightarrow> mp list \<Rightarrow> (bytes \<times> mp) list \<Rightarrow> error + mp list" where
  "box_recipients P sender_private recipients_nonce_start recipient_num recipients [] =
     Inr recipients"
| "box_recipients P sender_private recipients_nonce_start recipient_num recipients
     ((recipient, keys) # rest) =
     (case packb P keys of
        None \<Rightarrow> Inl PackError
      | Some packed_keys \<Rightarrow>
          (case recipient_nonce recipients_nonce_start recipient_num of
             Inl e \<Rightarrow> Inl e
           | Inr nonce \<Rightarrow>
               (case crypto_box P packed_keys nonce sender_private recipient of
                  None \<Rightarrow> Inl ValueError
                | Some boxed_keys \<Rightarrow>
                    box_recipients P sender_private recipients_nonce_start (Suc recipient_num)
                      (recipients @ [MList [MBytes recipient, MBytes boxed_keys]]) rest)))"

text \<open>The \<^verbatim>\<open>macs\<close> of a boxed chunk (lines 133 to 139).\<close>

definition chunk_macs :: "prims \<Rightarrow> bool \<Rightarrow> bytes list \<Rightarrow> bytes \<Rightarrow> mp list" where
  "chunk_macs P need_macs mac_keys boxed_chunk =
     (if need_macs
      then map (\<lambda>mac_key. MBytes (take 16 (hmac_sha512 P mac_key (take 16 boxed_chunk)))) mac_keys
      else [])"

text \<open>The body of the loop over the chunks up to \<^verbatim>\<open>chunk_map\<close> (lines 127 to 143).\<close>

definition make_chunk_map ::
  "prims \<Rightarrow> bytes \<Rightarrow> bool \<Rightarrow> bytes list \<Rightarrow> nat \<Rightarrow> bytes \<Rightarrow> error + mp" where
  "make_chunk_map P encryption_key need_macs mac_keys chunknum chunk =
     (case chunk_nonce chunknum of
        Inl e \<Rightarrow> Inl e
      | Inr nonce \<Rightarrow>
          (case crypto_secretbox P chunk nonce encryption_key of
             None \<Rightarrow> Inl ValueError
           | Some boxed_chunk \<Rightarrow>
               Inr (MDict [(MStr ''macs'', MList (chunk_macs P need_macs mac_keys boxed_chunk)),
                           (MStr ''chunk'', MBytes boxed_chunk)])))"


definition FORMAT_VERSION :: int where
  "FORMAT_VERSION = 1"

definition make_header :: "bytes \<Rightarrow> bytes \<Rightarrow> mp list \<Rightarrow> mp" where
  "make_header sender_public recipients_nonce_start recipients =
     MDict [(MStr ''version'', MInt FORMAT_VERSION),
            (MStr ''sender'', MBytes sender_public),
            (MStr ''nonce'', MBytes recipients_nonce_start),
            (MStr ''recipients'', MList recipients)]"

text \<open>Lines 80 to 123: everything up to and including the header frame.\<close>

definition encrypt_header ::
  "prims \<Rightarrow> entropy \<Rightarrow> bytes \<Rightarrow> bytes list list \<Rightarrow> error + bytes" where
  "encrypt_header P E sender_private recipient_groups =
     (case scalarmult_base P sender_private of
        None \<Rightarrow> Inl ValueError
      | Some sender_public \<Rightarrow>
          (let encryption_key = rand_encryption_key E;
               need_macs = (length recipient_groups > 1);
               recipients_nonce_start = rand_nonce_start E
           in case box_recipients P sender_private recipients_nonce_start 0 []
                     (key_bundles need_macs encryption_key E 0 recipient_groups) of
                Inl e \<Rightarrow> Inl e
              | Inr recipients \<Rightarrow>
                  write_framed_msgpack P []
                    (make_header sender_public recipients_nonce_start recipients)))"


section \<open>\<^verbatim>\<open>decrypt\<close>\<close>

text \<open>Lines 152 to 157: the header and its four fields.\<close>

definition parse_header :: "prims \<Rightarrow> bytes \<Rightarrow> error + ((mp \<times> mp \<times> mp) \<times> bytes)" where
  "parse_header P input =
     (case read_framed_msgpack P input of
        Inl e \<Rightarrow> Inl e
      | Inr (header, stream) \<Rightarrow>
          (case py_getitem header (MStr ''version'') of
             Inl e \<Rightarrow> Inl e
           | Inr version \<Rightarrow>
               if \<not> py_eq_int version 1 then Inl UnsupportedVersion
               else
                 (case py_getitem header (MStr ''sender'') of
                    Inl e \<Rightarrow> Inl e
                  | Inr sender_public \<Rightarrow>
                      (case py_getitem header (MStr ''nonce'') of
                         Inl e \<Rightarrow> Inl e
                       | Inr recipients_nonce_start \<Rightarrow>
                           (case py_getitem header (MStr ''recipients'') of
                              Inl e \<Rightarrow> Inl e
                            | Inr recipients \<Rightarrow>
                                Inr ((sender_public, recipients_nonce_start, recipients),
                                     stream))))))"

text \<open>
  Lines 160 to 166:
  \<^verbatim>\<open>
  recipient_num = 0
  for pub, boxed_keys in recipients:
      if pub == recipient_public:
          break
      recipient_num += 1
  else:
      raise RuntimeError('recipient key not found')
  \<close>
  on the elements of \<^verbatim>\<open>recipients\<close>. An element that does not unpack into two values
  raises.
\<close>

fun recipient_loop :: "mp list \<Rightarrow> bytes \<Rightarrow> nat \<Rightarrow> error + (nat \<times> mp)" where
  "recipient_loop [] recipient_public recipient_num = Inl RecipientNotFound"
| "recipient_loop (entry # entries) recipient_public recipient_num =
     (case py_iter entry of
        Inl e \<Rightarrow> Inl e
      | Inr [pub, boxed_keys] \<Rightarrow>
          if py_eq_bytes pub recipient_public then Inr (recipient_num, boxed_keys)
          else recipient_loop entries recipient_public (Suc recipient_num)
      | Inr _ \<Rightarrow> Inl ValueError)"

definition find_recipient :: "mp \<Rightarrow> bytes \<Rightarrow> error + (nat \<times> mp)" where
  "find_recipient recipients recipient_public =
     (case py_iter recipients of
        Inl e \<Rightarrow> Inl e
      | Inr entries \<Rightarrow> recipient_loop entries recipient_public 0)"

text \<open>Lines 175 to 179: the recipient's keys from the opened box.\<close>

definition read_keys :: "prims \<Rightarrow> bytes \<Rightarrow> error + (mp \<times> mp \<times> mp)" where
  "read_keys P packed_keys =
     (case unpack P packed_keys of
        None \<Rightarrow> Inl MalformedFrame
      | Some (keys, k) \<Rightarrow>
          (case py_getitem keys (MStr ''encryption_key'') of
             Inl e \<Rightarrow> Inl e
           | Inr encryption_key \<Rightarrow>
               (case py_get keys (MStr ''mac_group'') of
                  Inl e \<Rightarrow> Inl e
                | Inr mac_group \<Rightarrow>
                    (case py_get keys (MStr ''mac_key'') of
                       Inl e \<Rightarrow> Inl e
                     | Inr mac_key \<Rightarrow> Inr (encryption_key, mac_group, mac_key)))))"

text \<open>Lines 168 to 174: unboxing the recipient's keys. The right operand of \<^verbatim>\<open>+\<close>
  (\<^verbatim>\<open>to_bytes\<close>) is evaluated before the two operands are added, and NaCl takes
  \<^verbatim>\<open>bytes\<close> only.\<close>

definition unbox_keys ::
  "prims \<Rightarrow> bytes \<Rightarrow> mp \<Rightarrow> mp \<Rightarrow> nat \<Rightarrow> mp \<Rightarrow> error + (mp \<times> mp \<times> mp)" where
  "unbox_keys P recipient_private sender_public recipients_nonce_start recipient_num boxed_keys =
     (case to_bytes recipient_num 8 of
        Inl e \<Rightarrow> Inl e
      | Inr counter \<Rightarrow>
          (case (recipients_nonce_start, boxed_keys, sender_public) of
             (MBytes nonce_start, MBytes ciphertext, MBytes pk) \<Rightarrow>
               (case crypto_box_open P ciphertext (nonce_start @ counter) recipient_private pk of
                  None \<Rightarrow> Inl AuthenticationFailure
                | Some packed_keys \<Rightarrow> read_keys P packed_keys)
           | _ \<Rightarrow> Inl TypeError))"

text \<open>Lines 188 to 196: the MAC check of one chunk. It is skipped when \<^verbatim>\<open>mac_key\<close> is
  \<^verbatim>\<open>None\<close>. \<^verbatim>\<open>macs[mac_group]\<close> is evaluated first; \<^verbatim>\<open>hmac\<close> then takes \<^verbatim>\<open>bytes\<close> only.\<close>

definition check_mac :: "prims \<Rightarrow> mp \<Rightarrow> mp \<Rightarrow> mp \<Rightarrow> mp \<Rightarrow> error + unit" where
  "check_mac P mac_group mac_key macs boxed_chunk =
     (if mac_key \<noteq> MNone
      then (case py_getitem macs mac_group of
              Inl e \<Rightarrow> Inl e
            | Inr their_mac \<Rightarrow>
                (case (boxed_chunk, mac_key, their_mac) of
                   (MBytes ciphertext, MBytes key, MBytes their) \<Rightarrow>
                     (let authenticator = take 16 ciphertext;
                          our_mac = take 16 (hmac_sha512 P key authenticator)
                      in if their \<noteq> our_mac then Inl MacMismatch else Inr ())
                 | _ \<Rightarrow> Inl TypeError))
      else Inr ())"

text \<open>Lines 184 to 201: the body of the \<^verbatim>\<open>while\<close> loop up to the decrypted chunk. It
  returns the chunk and the stream after the frame.\<close>

definition read_chunk ::
  "prims \<Rightarrow> mp \<times> mp \<times> mp \<Rightarrow> bytes \<Rightarrow> nat \<Rightarrow> error + (bytes \<times> bytes)" where
  "read_chunk P keys stream chunknum =
     (case keys of (encryption_key, mac_group, mac_key) \<Rightarrow>
      (case chunk_nonce chunknum of
         Inl e \<Rightarrow> Inl e
       | Inr nonce \<Rightarrow>
           (case read_framed_msgpack P stream of
              Inl e \<Rightarrow> Inl e
            | Inr (chunk_map, stream') \<Rightarrow>
                (case py_getitem chunk_map (MStr ''macs'') of
                   Inl e \<Rightarrow> Inl e
                 | Inr macs \<Rightarrow>
                     (case py_getitem chunk_map (MStr ''chunk'') of
                        Inl e \<Rightarrow> Inl e
                      | Inr boxed_chunk \<Rightarrow>
                          (case check_mac P mac_group mac_key macs boxed_chunk of
                             Inl e \<Rightarrow> Inl e
                           | Inr _ \<Rightarrow>
                               (case (boxed_chunk, encryption_key) of
                                  (MBytes ciphertext, MBytes key) \<Rightarrow>
                                    (case crypto_secretbox_open P ciphertext nonce key of
                                       None \<Rightarrow> Inl AuthenticationFailure
                                     | Some chunk \<Rightarrow> Inr (chunk, stream'))
                                | _ \<Rightarrow> Inl TypeError)))))))"

text \<open>
  The \<^verbatim>\<open>while True\<close> loop (lines 183 to 206), with the output buffer \<open>output\<close>: it
  returns the buffer at the first empty chunk, and nothing of it when an exception ends
  the call. A reader that consumed no byte would let the loop run forever: the loop is a
  partial function, and not returning is \<open>None\<close>.
\<close>

partial_function (option) chunk_loop ::
  "prims \<Rightarrow> mp \<times> mp \<times> mp \<Rightarrow> bytes \<Rightarrow> nat \<Rightarrow> bytes \<Rightarrow> (error + bytes) option" where
  "chunk_loop P keys stream chunknum output =
     (case read_chunk P keys stream chunknum of
        Inl e \<Rightarrow> Some (Inl e)
      | Inr (chunk, stream') \<Rightarrow>
          if chunk = [] then Some (Inr output)
          else chunk_loop P keys stream' (Suc chunknum) (output @ chunk))"

declare chunk_loop.simps [code]

text \<open>Lines 150 to 179: from the input to the recipient's keys and the stream after the
  header frame.\<close>

definition open_header ::
  "prims \<Rightarrow> bytes \<Rightarrow> bytes \<Rightarrow> error + ((mp \<times> mp \<times> mp) \<times> bytes)" where
  "open_header P input recipient_private =
     (case parse_header P input of
        Inl e \<Rightarrow> Inl e
      | Inr ((sender_public, recipients_nonce_start, recipients), stream) \<Rightarrow>
          (case scalarmult_base P recipient_private of
             None \<Rightarrow> Inl ValueError
           | Some recipient_public \<Rightarrow>
               (case find_recipient recipients recipient_public of
                  Inl e \<Rightarrow> Inl e
                | Inr (recipient_num, boxed_keys) \<Rightarrow>
                    (case unbox_keys P recipient_private sender_public recipients_nonce_start
                            recipient_num boxed_keys of
                       Inl e \<Rightarrow> Inl e
                     | Inr keys \<Rightarrow> Inr (keys, stream)))))"

definition decrypt :: "prims \<Rightarrow> bytes \<Rightarrow> bytes \<Rightarrow> (error + bytes) option" where
  "decrypt P input recipient_private =
     (case open_header P input recipient_private of
        Inl e \<Rightarrow> Some (Inl e)
      | Inr (keys, stream) \<Rightarrow> chunk_loop P keys stream 0 [])"

section \<open>What the libraries guarantee\<close>

text \<open>
  The contract of the NaCl bindings that the round trip relies on: a 32-byte private key has
  a 32-byte public key; \<^verbatim>\<open>crypto_box\<close> and \<^verbatim>\<open>crypto_secretbox\<close> accept keys of 32 and
  nonces of 24 bytes and return the message with 16 more bytes; what one party boxes for
  the public key of another, the other opens with the public key of the first; what is
  boxed under a key opens under it.
\<close>

definition nacl_ok :: "prims \<Rightarrow> bool" where
  "nacl_ok P \<longleftrightarrow>
     (\<forall>sk. length sk = 32 \<longrightarrow> (\<exists>pk. scalarmult_base P sk = Some pk \<and> length pk = 32)) \<and>
     (\<forall>m n sk pk. length n = 24 \<and> length sk = 32 \<and> length pk = 32 \<longrightarrow>
        (\<exists>c. crypto_box P m n sk pk = Some c \<and> length c = length m + 16)) \<and>
     (\<forall>m n a b pa pb c.
        scalarmult_base P a = Some pa \<and> scalarmult_base P b = Some pb \<and>
        crypto_box P m n a pb = Some c \<longrightarrow> crypto_box_open P c n b pa = Some m) \<and>
     (\<forall>m n k. length n = 24 \<and> length k = 32 \<longrightarrow>
        (\<exists>c. crypto_secretbox P m n k = Some c \<and> length c = length m + 16)) \<and>
     (\<forall>m n k c. crypto_secretbox P m n k = Some c \<longrightarrow> crypto_secretbox_open P c n k = Some m)"

text \<open>
  The values the MessagePack format carries and the program writes: unsigned integers
  below \<open>2 ^ 64\<close>, byte strings, ASCII strings, lists and dictionaries with distinct string
  keys, each with fewer than \<open>2 ^ 32\<close> elements; \<open>wire_bound\<close> bounds the size of their
  encoding.
\<close>

fun is_str :: "mp \<Rightarrow> bool" where
  "is_str (MStr s) = True"
| "is_str _ = False"

fun wire_value :: "mp \<Rightarrow> bool" where
  "wire_value MNone = True"
| "wire_value (MBool b) = True"
| "wire_value (MInt i) = (0 \<le> i \<and> i < 2 ^ 64)"
| "wire_value (MBytes bs) = (length bs < 2 ^ 32)"
| "wire_value (MStr s) = (length s < 2 ^ 32 \<and> (\<forall>c \<in> set s. (of_char c :: nat) < 128))"
| "wire_value (MList xs) = (length xs < 2 ^ 32 \<and> (\<forall>x \<in> set xs. wire_value x))"
| "wire_value (MDict kvs) =
     (length kvs < 2 ^ 32 \<and> distinct (map fst kvs) \<and>
      (\<forall>kv \<in> set kvs. is_str (fst kv) \<and> wire_value (fst kv) \<and> wire_value (snd kv)))"

fun wire_bound :: "mp \<Rightarrow> nat" where
  "wire_bound MNone = 1"
| "wire_bound (MBool b) = 1"
| "wire_bound (MInt i) = 9"
| "wire_bound (MBytes bs) = 5 + length bs"
| "wire_bound (MStr s) = 5 + length s"
| "wire_bound (MList xs) = 5 + sum_list (map wire_bound xs)"
| "wire_bound (MDict kvs) =
     5 + sum_list (map (\<lambda>kv. wire_bound (fst kv) + wire_bound (snd kv)) kvs)"

text \<open>The contract of the codec: a wire value packs, within the bound, and the reader
  gets it back from the front of any stream, reading exactly its encoding.\<close>

definition msgpack_ok :: "prims \<Rightarrow> bool" where
  "msgpack_ok P \<longleftrightarrow>
     (\<forall>v. wire_value v \<longrightarrow>
        (\<exists>bs. packb P v = Some bs \<and> length bs \<le> wire_bound v \<and>
              (\<forall>rest. unpack P (bs @ rest) = Some (v, length bs))))"

text \<open>A reader that has returned has read a prefix of the stream, and what follows the
  prefix has no part in the result.\<close>

definition stream_reader :: "prims \<Rightarrow> bool" where
  "stream_reader P \<longleftrightarrow>
     (\<forall>s v k e. unpack P s = Some (v, k) \<longrightarrow> k \<le> length s \<and> unpack P (s @ e) = Some (v, k))"

text \<open>\<^verbatim>\<open>os.urandom(n)\<close> returns \<open>n\<close> bytes.\<close>

definition entropy_ok :: "entropy \<Rightarrow> bool" where
  "entropy_ok E \<longleftrightarrow>
     length (rand_encryption_key E) = 32 \<and> length (rand_nonce_start E) = 16 \<and>
     (\<forall>g. length (rand_mac_key E g) = 16)"

section \<open>An instance of the libraries\<close>

text \<open>
  To run the model on concrete inputs the parameters need values. The codec below is the
  part of the MessagePack wire format that the program writes (nil, booleans, unsigned
  integers, \<^verbatim>\<open>bin\<close>, \<^verbatim>\<open>str\<close> with ASCII text, arrays and maps); it refuses every other type
  code. The first byte of an object gives its type, and either its value or the length of
  what follows.
\<close>

datatype head = HVal mp | HBin nat | HStr nat | HArr nat | HMap nat

definition read_len :: "nat \<Rightarrow> bytes \<Rightarrow> (nat \<times> bytes) option" where
  "read_len k s = (if k \<le> length s then Some (be_nat (take k s), drop k s) else None)"

definition with_len ::
  "nat \<Rightarrow> (nat \<Rightarrow> head) \<Rightarrow> bytes \<Rightarrow> (head \<times> bytes) option" where
  "with_len k h s = map_option (\<lambda>(n, rest). (h n, rest)) (read_len k s)"

fun read_head :: "bytes \<Rightarrow> (head \<times> bytes) option" where
  "read_head [] = None"
| "read_head (c # s) =
     (let t = unat c in
      if t < 0x80 then Some (HVal (MInt (int t)), s)
      else if t < 0x90 then Some (HMap (t - 0x80), s)
      else if t < 0xa0 then Some (HArr (t - 0x90), s)
      else if t < 0xc0 then Some (HStr (t - 0xa0), s)
      else if t = 0xc0 then Some (HVal MNone, s)
      else if t = 0xc2 then Some (HVal (MBool False), s)
      else if t = 0xc3 then Some (HVal (MBool True), s)
      else if t = 0xc4 then with_len 1 HBin s
      else if t = 0xc5 then with_len 2 HBin s
      else if t = 0xc6 then with_len 4 HBin s
      else if t = 0xcc then with_len 1 (\<lambda>n. HVal (MInt (int n))) s
      else if t = 0xcd then with_len 2 (\<lambda>n. HVal (MInt (int n))) s
      else if t = 0xce then with_len 4 (\<lambda>n. HVal (MInt (int n))) s
      else if t = 0xcf then with_len 8 (\<lambda>n. HVal (MInt (int n))) s
      else if t = 0xd9 then with_len 1 HStr s
      else if t = 0xda then with_len 2 HStr s
      else if t = 0xdb then with_len 4 HStr s
      else if t = 0xdc then with_len 2 HArr s
      else if t = 0xdd then with_len 4 HArr s
      else if t = 0xde then with_len 2 HMap s
      else if t = 0xdf then with_len 4 HMap s
      else None)"

definition read_bytes :: "nat \<Rightarrow> bytes \<Rightarrow> (bytes \<times> bytes) option" where
  "read_bytes n s = (if n \<le> length s then Some (take n s, drop n s) else None)"

definition ascii_text :: "bytes \<Rightarrow> string option" where
  "ascii_text bs = (if \<forall>b \<in> set bs. unat b < 128 then Some (map (\<lambda>b. char_of (unat b)) bs) else None)"

definition dict_of :: "(mp \<times> mp) list \<Rightarrow> mp option" where
  "dict_of kvs =
     (if distinct (map fst kvs) \<and> (\<forall>kv \<in> set kvs. hashable (fst kv)) then Some (MDict kvs)
      else None)"

text \<open>The reader, with the nesting depth it may still descend as fuel; the length of the
  stream is always enough.\<close>

fun unpack_depth :: "nat \<Rightarrow> bytes \<Rightarrow> (mp \<times> bytes) option"
  and unpack_items :: "nat \<Rightarrow> nat \<Rightarrow> bytes \<Rightarrow> (mp list \<times> bytes) option"
  and unpack_pairs :: "nat \<Rightarrow> nat \<Rightarrow> bytes \<Rightarrow> ((mp \<times> mp) list \<times> bytes) option" where
  "unpack_depth 0 s = None"
| "unpack_depth (Suc d) s =
     (case read_head s of
        None \<Rightarrow> None
      | Some (HVal v, rest) \<Rightarrow> Some (v, rest)
      | Some (HBin n, rest) \<Rightarrow> map_option (\<lambda>(bs, rest'). (MBytes bs, rest')) (read_bytes n rest)
      | Some (HStr n, rest) \<Rightarrow>
          (case read_bytes n rest of
             None \<Rightarrow> None
           | Some (bs, rest') \<Rightarrow> map_option (\<lambda>text. (MStr text, rest')) (ascii_text bs))
      | Some (HArr n, rest) \<Rightarrow> map_option (\<lambda>(xs, rest'). (MList xs, rest')) (unpack_items d n rest)
      | Some (HMap n, rest) \<Rightarrow>
          (case unpack_pairs d n rest of
             None \<Rightarrow> None
           | Some (kvs, rest') \<Rightarrow> map_option (\<lambda>dict. (dict, rest')) (dict_of kvs)))"
| "unpack_items d 0 s = Some ([], s)"
| "unpack_items d (Suc n) s =
     (case unpack_depth d s of
        None \<Rightarrow> None
      | Some (x, rest) \<Rightarrow> map_option (\<lambda>(xs, rest'). (x # xs, rest')) (unpack_items d n rest))"
| "unpack_pairs d 0 s = Some ([], s)"
| "unpack_pairs d (Suc n) s =
     (case unpack_depth d s of
        None \<Rightarrow> None
      | Some (k, rest) \<Rightarrow>
          (case unpack_depth d rest of
             None \<Rightarrow> None
           | Some (v, rest') \<Rightarrow>
               map_option (\<lambda>(kvs, rest''). ((k, v) # kvs, rest'')) (unpack_pairs d n rest')))"

definition msgpack_unpack :: "bytes \<Rightarrow> (mp \<times> nat) option" where
  "msgpack_unpack s =
     map_option (\<lambda>(v, rest). (v, length s - length rest)) (unpack_depth (length s) s)"

text \<open>The writer: the first byte and the length in the shortest form that holds it.\<close>

definition pack_uint :: "nat \<Rightarrow> bytes option" where
  "pack_uint n =
     (if n < 0x80 then Some [of_nat n]
      else if n < 0x100 then Some (0xcc # be_bytes 1 n)
      else if n < 0x10000 then Some (0xcd # be_bytes 2 n)
      else if n < 0x100000000 then Some (0xce # be_bytes 4 n)
      else if n < 0x10000000000000000 then Some (0xcf # be_bytes 8 n)
      else None)"

definition pack_bin_head :: "nat \<Rightarrow> bytes option" where
  "pack_bin_head n =
     (if n < 0x100 then Some (0xc4 # be_bytes 1 n)
      else if n < 0x10000 then Some (0xc5 # be_bytes 2 n)
      else if n < 0x100000000 then Some (0xc6 # be_bytes 4 n)
      else None)"

definition pack_str_head :: "nat \<Rightarrow> bytes option" where
  "pack_str_head n =
     (if n < 32 then Some [of_nat (0xa0 + n)]
      else if n < 0x100 then Some (0xd9 # be_bytes 1 n)
      else if n < 0x10000 then Some (0xda # be_bytes 2 n)
      else if n < 0x100000000 then Some (0xdb # be_bytes 4 n)
      else None)"

definition pack_arr_head :: "nat \<Rightarrow> bytes option" where
  "pack_arr_head n =
     (if n < 16 then Some [of_nat (0x90 + n)]
      else if n < 0x10000 then Some (0xdc # be_bytes 2 n)
      else if n < 0x100000000 then Some (0xdd # be_bytes 4 n)
      else None)"

definition pack_map_head :: "nat \<Rightarrow> bytes option" where
  "pack_map_head n =
     (if n < 16 then Some [of_nat (0x80 + n)]
      else if n < 0x10000 then Some (0xde # be_bytes 2 n)
      else if n < 0x100000000 then Some (0xdf # be_bytes 4 n)
      else None)"

definition with_head :: "bytes option \<Rightarrow> bytes option \<Rightarrow> bytes option" where
  "with_head h body =
     (case h of None \<Rightarrow> None | Some hs \<Rightarrow> (case body of None \<Rightarrow> None | Some bs \<Rightarrow> Some (hs @ bs)))"

fun concat_all :: "bytes option list \<Rightarrow> bytes option" where
  "concat_all [] = Some []"
| "concat_all (x # xs) = with_head x (concat_all xs)"

fun msgpack_packb :: "mp \<Rightarrow> bytes option" where
  "msgpack_packb MNone = Some [0xc0]"
| "msgpack_packb (MBool b) = Some [if b then 0xc3 else 0xc2]"
| "msgpack_packb (MInt i) = (if 0 \<le> i then pack_uint (nat i) else None)"
| "msgpack_packb (MBytes bs) = with_head (pack_bin_head (length bs)) (Some bs)"
| "msgpack_packb (MStr text) =
     (if \<forall>c \<in> set text. (of_char c :: nat) < 128
      then with_head (pack_str_head (length text)) (Some (map (\<lambda>c. of_nat (of_char c)) text))
      else None)"
| "msgpack_packb (MList xs) =
     with_head (pack_arr_head (length xs)) (concat_all (map msgpack_packb xs))"
| "msgpack_packb (MDict kvs) =
     with_head (pack_map_head (length kvs))
       (concat_all (map (\<lambda>kv. with_head (msgpack_packb (fst kv)) (msgpack_packb (snd kv))) kvs))"

text \<open>The nesting depth of a value: the fuel the reader needs for it.\<close>

fun mp_depth :: "mp \<Rightarrow> nat" where
  "mp_depth (MList xs) = Suc (foldr max (map mp_depth xs) 0)"
| "mp_depth (MDict kvs) =
     Suc (foldr max (map (\<lambda>kv. max (mp_depth (fst kv)) (mp_depth (snd kv))) kvs) 0)"
| "mp_depth _ = 1"

text \<open>
  Stand-ins for the NaCl primitives and for HMAC, with the sizes and the interface of the
  real ones and none of their strength: the public key is the private key with every bit
  inverted, the key two parties share is the exclusive or of the one's private and the
  other's public key, a box is a 16-byte tag followed by the message, and the tag is a
  checksum of key, nonce and message.
\<close>

definition checksum :: "bytes \<Rightarrow> byte" where
  "checksum bs = foldr (+) bs 0"

definition model_tag :: "bytes \<Rightarrow> bytes \<Rightarrow> bytes \<Rightarrow> bytes" where
  "model_tag key nonce message = replicate 16 (checksum (key @ nonce @ message))"

definition model_scalarmult_base :: "bytes \<Rightarrow> bytes option" where
  "model_scalarmult_base sk = (if length sk = 32 then Some (map (\<lambda>b. NOT b) sk) else None)"

definition model_secretbox :: "bytes \<Rightarrow> bytes \<Rightarrow> bytes \<Rightarrow> bytes option" where
  "model_secretbox message nonce key =
     (if length nonce = 24 \<and> length key = 32
      then Some (model_tag key nonce message @ message) else None)"

definition model_secretbox_open :: "bytes \<Rightarrow> bytes \<Rightarrow> bytes \<Rightarrow> bytes option" where
  "model_secretbox_open ciphertext nonce key =
     (if length nonce = 24 \<and> length key = 32 \<and> 16 \<le> length ciphertext \<and>
         take 16 ciphertext = model_tag key nonce (drop 16 ciphertext)
      then Some (drop 16 ciphertext) else None)"

definition shared_key :: "bytes \<Rightarrow> bytes \<Rightarrow> bytes" where
  "shared_key sk pk = map (\<lambda>(a, b). a XOR b) (zip sk pk)"

definition model_box :: "bytes \<Rightarrow> bytes \<Rightarrow> bytes \<Rightarrow> bytes \<Rightarrow> bytes option" where
  "model_box message nonce sk pk =
     (if length sk = 32 \<and> length pk = 32 then model_secretbox message nonce (shared_key sk pk)
      else None)"

definition model_box_open :: "bytes \<Rightarrow> bytes \<Rightarrow> bytes \<Rightarrow> bytes \<Rightarrow> bytes option" where
  "model_box_open ciphertext nonce sk pk =
     (if length sk = 32 \<and> length pk = 32
      then model_secretbox_open ciphertext nonce (shared_key sk pk) else None)"

definition model_hmac :: "bytes \<Rightarrow> bytes \<Rightarrow> bytes" where
  "model_hmac key msg = replicate 64 (checksum (key @ msg))"

definition model_prims :: prims where
  "model_prims =
     \<lparr> scalarmult_base = model_scalarmult_base,
       crypto_box = model_box,
       crypto_box_open = model_box_open,
       crypto_secretbox = model_secretbox,
       crypto_secretbox_open = model_secretbox_open,
       hmac_sha512 = model_hmac,
       packb = msgpack_packb,
       unpack = msgpack_unpack \<rparr>"

definition model_entropy :: entropy where
  "model_entropy =
     \<lparr> rand_encryption_key = replicate 32 0x11,
       rand_nonce_start = replicate 16 0x22,
       rand_mac_key = (\<lambda>g. replicate 16 (of_nat (0x30 + g))) \<rparr>"

text \<open>Two recipients, \<open>alice\<close> and \<open>bob\<close>, and the sender \<open>jack\<close> of the program
  (\<^verbatim>\<open>jack_private = b'\xaa' * 32\<close>).\<close>

definition jack_private :: bytes where
  "jack_private = replicate 32 0xaa"



definition alice_public :: bytes where
  "alice_public = replicate 32 0xfe"

definition bob_public :: bytes where
  "bob_public = replicate 32 0xfd"

section \<open>Chunking\<close>

lemma pieces_Nil [simp]: "pieces n [] = []"
  by (simp add: pieces.simps)








lemma be_nat_be_bytes: "k < 256 ^ n \<Longrightarrow> be_nat (be_bytes n k) = k"
proof (induction n arbitrary: k)
  case 0
  then show ?case by simp
next
  case (Suc n)
  then have "k div 256 < 256 ^ n"
    by (simp add: less_mult_imp_div_less mult.commute)
  with Suc.IH have "be_nat (be_bytes n (k div 256)) = k div 256" by blast
  moreover have "unat (of_nat (k mod 256) :: byte) = k mod 256"
    by (simp add: unat_of_nat)
  ultimately show ?case by simp
qed

lemma length_be_bytes [simp]: "length (be_bytes n k) = n"
  by (induction n arbitrary: k) simp_all

lemma high_part_div: "high_part n k = k div 256 ^ n"
  by (induction n arbitrary: k) (simp_all add: div_mult2_eq)

lemma to_bytes_eq:
  "to_bytes k n = (if k < 256 ^ n then Inr (be_bytes n k) else Inl OverflowError)"
  by (simp add: to_bytes_def high_part_div div_eq_0_iff)

lemma to_bytes_inj:
  assumes "to_bytes j n = Inr a" and "to_bytes k n = Inr a"
  shows "j = k"
proof -
  from assms have "j < 256 ^ n" "k < 256 ^ n" "be_bytes n j = be_bytes n k"
    by (auto simp: to_bytes_eq split: if_splits)
  then show ?thesis
    by (metis be_nat_be_bytes)
qed




section \<open>The codec instance keeps the contract\<close>

lemma unat_byte_of_nat: "n < 256 \<Longrightarrow> unat (of_nat n :: byte) = n"
  by (simp add: unat_of_nat)

lemma be_nat_append: "be_nat (xs @ [b]) = be_nat xs * 256 + unat b"
  by simp

lemma read_len_be_bytes:
  "n < 256 ^ k \<Longrightarrow> read_len k (be_bytes k n @ rest) = Some (n, rest)"
  using be_nat_be_bytes [of n k] by (simp add: read_len_def del: be_nat.simps)

lemma with_len_be_bytes:
  "n < 256 ^ k \<Longrightarrow> with_len k h (be_bytes k n @ rest) = Some (h n, rest)"
  by (simp add: with_len_def read_len_be_bytes)

lemma read_head_uint:
  assumes "pack_uint n = Some hs"
  shows "read_head (hs @ rest) = Some (HVal (MInt (int n)), rest)"
proof -
  consider "n < 0x80" | "\<not> n < 0x80" "n < 0x100" | "\<not> n < 0x100" "n < 0x10000"
    | "\<not> n < 0x10000" "n < 0x100000000" | "\<not> n < 0x100000000" "n < 0x10000000000000000"
    using assms by (auto simp: pack_uint_def split: if_splits)
  then show ?thesis
  proof cases
    case 1
    then have "hs = [of_nat n]" using assms by (simp add: pack_uint_def)
    with 1 show ?thesis by (simp add: unat_byte_of_nat)
  next
    case 2
    then have "hs = 0xcc # be_bytes 1 n" using assms by (simp add: pack_uint_def)
    moreover have "with_len 1 (\<lambda>n. HVal (MInt (int n))) (be_bytes 1 n @ rest) = Some (HVal (MInt (int n)), rest)"
      using 2 by (intro with_len_be_bytes) simp
    ultimately show ?thesis by (simp del: be_bytes.simps)
  next
    case 3
    then have "hs = 0xcd # be_bytes 2 n" using assms by (simp add: pack_uint_def)
    moreover have "with_len 2 (\<lambda>n. HVal (MInt (int n))) (be_bytes 2 n @ rest) = Some (HVal (MInt (int n)), rest)"
      using 3 by (intro with_len_be_bytes) simp
    ultimately show ?thesis by (simp del: be_bytes.simps)
  next
    case 4
    then have "hs = 0xce # be_bytes 4 n" using assms by (simp add: pack_uint_def)
    moreover have "with_len 4 (\<lambda>n. HVal (MInt (int n))) (be_bytes 4 n @ rest) = Some (HVal (MInt (int n)), rest)"
      using 4 by (intro with_len_be_bytes) simp
    ultimately show ?thesis by (simp del: be_bytes.simps)
  next
    case 5
    then have "hs = 0xcf # be_bytes 8 n" using assms by (simp add: pack_uint_def)
    moreover have "with_len 8 (\<lambda>n. HVal (MInt (int n))) (be_bytes 8 n @ rest) = Some (HVal (MInt (int n)), rest)"
      using 5 by (intro with_len_be_bytes) simp
    ultimately show ?thesis by (simp del: be_bytes.simps)
  qed
qed

lemma read_head_bin:
  assumes "pack_bin_head n = Some hs"
  shows "read_head (hs @ rest) = Some (HBin n, rest)"
proof -
  consider "n < 0x100"
    | "\<not> n < 0x100" "n < 0x10000"
    | "\<not> n < 0x10000" "n < 0x100000000"
    using assms by (auto simp: pack_bin_head_def split: if_splits)
  then show ?thesis
  proof cases
    case 1
    then have "hs = 0xc4 # be_bytes 1 n" using assms by (simp add: pack_bin_head_def)
    moreover have "with_len 1 HBin (be_bytes 1 n @ rest) = Some (HBin n, rest)"
      using 1 by (intro with_len_be_bytes) simp
    ultimately show ?thesis by (simp del: be_bytes.simps)
  next
    case 2
    then have "hs = 0xc5 # be_bytes 2 n" using assms by (simp add: pack_bin_head_def)
    moreover have "with_len 2 HBin (be_bytes 2 n @ rest) = Some (HBin n, rest)"
      using 2 by (intro with_len_be_bytes) simp
    ultimately show ?thesis by (simp del: be_bytes.simps)
  next
    case 3
    then have "hs = 0xc6 # be_bytes 4 n" using assms by (simp add: pack_bin_head_def)
    moreover have "with_len 4 HBin (be_bytes 4 n @ rest) = Some (HBin n, rest)"
      using 3 by (intro with_len_be_bytes) simp
    ultimately show ?thesis by (simp del: be_bytes.simps)
  qed
qed

lemma read_head_str:
  assumes "pack_str_head n = Some hs"
  shows "read_head (hs @ rest) = Some (HStr n, rest)"
proof -
  consider "n < 32"
    | "\<not> n < 32" "n < 0x100"
    | "\<not> n < 0x100" "n < 0x10000"
    | "\<not> n < 0x10000" "n < 0x100000000"
    using assms by (auto simp: pack_str_head_def split: if_splits)
  then show ?thesis
  proof cases
    case 1
    then have "hs = [of_nat (0xa0 + n)]" using assms by (simp add: pack_str_head_def)
    moreover have "unat (of_nat (0xa0 + n) :: byte) = 0xa0 + n"
      using 1 by (intro unat_byte_of_nat) simp
    ultimately show ?thesis using 1 by simp
  next
    case 2
    then have "hs = 0xd9 # be_bytes 1 n" using assms by (simp add: pack_str_head_def)
    moreover have "with_len 1 HStr (be_bytes 1 n @ rest) = Some (HStr n, rest)"
      using 2 by (intro with_len_be_bytes) simp
    ultimately show ?thesis by (simp del: be_bytes.simps)
  next
    case 3
    then have "hs = 0xda # be_bytes 2 n" using assms by (simp add: pack_str_head_def)
    moreover have "with_len 2 HStr (be_bytes 2 n @ rest) = Some (HStr n, rest)"
      using 3 by (intro with_len_be_bytes) simp
    ultimately show ?thesis by (simp del: be_bytes.simps)
  next
    case 4
    then have "hs = 0xdb # be_bytes 4 n" using assms by (simp add: pack_str_head_def)
    moreover have "with_len 4 HStr (be_bytes 4 n @ rest) = Some (HStr n, rest)"
      using 4 by (intro with_len_be_bytes) simp
    ultimately show ?thesis by (simp del: be_bytes.simps)
  qed
qed

lemma read_head_arr:
  assumes "pack_arr_head n = Some hs"
  shows "read_head (hs @ rest) = Some (HArr n, rest)"
proof -
  consider "n < 16"
    | "\<not> n < 16" "n < 0x10000"
    | "\<not> n < 0x10000" "n < 0x100000000"
    using assms by (auto simp: pack_arr_head_def split: if_splits)
  then show ?thesis
  proof cases
    case 1
    then have "hs = [of_nat (0x90 + n)]" using assms by (simp add: pack_arr_head_def)
    moreover have "unat (of_nat (0x90 + n) :: byte) = 0x90 + n"
      using 1 by (intro unat_byte_of_nat) simp
    ultimately show ?thesis using 1 by simp
  next
    case 2
    then have "hs = 0xdc # be_bytes 2 n" using assms by (simp add: pack_arr_head_def)
    moreover have "with_len 2 HArr (be_bytes 2 n @ rest) = Some (HArr n, rest)"
      using 2 by (intro with_len_be_bytes) simp
    ultimately show ?thesis by (simp del: be_bytes.simps)
  next
    case 3
    then have "hs = 0xdd # be_bytes 4 n" using assms by (simp add: pack_arr_head_def)
    moreover have "with_len 4 HArr (be_bytes 4 n @ rest) = Some (HArr n, rest)"
      using 3 by (intro with_len_be_bytes) simp
    ultimately show ?thesis by (simp del: be_bytes.simps)
  qed
qed

lemma read_head_map:
  assumes "pack_map_head n = Some hs"
  shows "read_head (hs @ rest) = Some (HMap n, rest)"
proof -
  consider "n < 16"
    | "\<not> n < 16" "n < 0x10000"
    | "\<not> n < 0x10000" "n < 0x100000000"
    using assms by (auto simp: pack_map_head_def split: if_splits)
  then show ?thesis
  proof cases
    case 1
    then have "hs = [of_nat (0x80 + n)]" using assms by (simp add: pack_map_head_def)
    moreover have "unat (of_nat (0x80 + n) :: byte) = 0x80 + n"
      using 1 by (intro unat_byte_of_nat) simp
    ultimately show ?thesis using 1 by simp
  next
    case 2
    then have "hs = 0xde # be_bytes 2 n" using assms by (simp add: pack_map_head_def)
    moreover have "with_len 2 HMap (be_bytes 2 n @ rest) = Some (HMap n, rest)"
      using 2 by (intro with_len_be_bytes) simp
    ultimately show ?thesis by (simp del: be_bytes.simps)
  next
    case 3
    then have "hs = 0xdf # be_bytes 4 n" using assms by (simp add: pack_map_head_def)
    moreover have "with_len 4 HMap (be_bytes 4 n @ rest) = Some (HMap n, rest)"
      using 3 by (intro with_len_be_bytes) simp
    ultimately show ?thesis by (simp del: be_bytes.simps)
  qed
qed


lemma pack_uint_Some: "n < 2 ^ 64 \<Longrightarrow> \<exists>hs. pack_uint n = Some hs \<and> hs \<noteq> [] \<and> length hs \<le> 9"
  by (simp add: pack_uint_def)

lemma pack_bin_head_Some: "n < 2 ^ 32 \<Longrightarrow> \<exists>hs. pack_bin_head n = Some hs \<and> hs \<noteq> [] \<and> length hs \<le> 5"
  by (simp add: pack_bin_head_def)

lemma pack_str_head_Some: "n < 2 ^ 32 \<Longrightarrow> \<exists>hs. pack_str_head n = Some hs \<and> hs \<noteq> [] \<and> length hs \<le> 5"
  by (simp add: pack_str_head_def)

lemma pack_arr_head_Some: "n < 2 ^ 32 \<Longrightarrow> \<exists>hs. pack_arr_head n = Some hs \<and> hs \<noteq> [] \<and> length hs \<le> 5"
  by (simp add: pack_arr_head_def)

lemma pack_map_head_Some: "n < 2 ^ 32 \<Longrightarrow> \<exists>hs. pack_map_head n = Some hs \<and> hs \<noteq> [] \<and> length hs \<le> 5"
  by (simp add: pack_map_head_def)

lemma read_bytes_append: "read_bytes (length bs) (bs @ rest) = Some (bs, rest)"
  by (simp add: read_bytes_def)

lemma ascii_text_chars:
  assumes "\<forall>c \<in> set text. (of_char c :: nat) < 128"
  shows "ascii_text (map (\<lambda>c. of_nat (of_char c)) text) = Some text"
proof -
  have a: "unat (of_nat (of_char c) :: byte) = of_char c" if "c \<in> set text" for c
    using assms that by (simp add: unat_of_nat)
  then have "map (\<lambda>b. char_of (unat b)) (map (\<lambda>c. of_nat (of_char c) :: byte) text) = text"
    by (simp add: map_idI)
  moreover have "\<forall>b \<in> set (map (\<lambda>c. of_nat (of_char c) :: byte) text). unat b < 128"
    using assms a by auto
  ultimately show ?thesis
    by (simp add: ascii_text_def)
qed


lemma items_roundtrip:
  assumes "\<And>x. x \<in> set xs \<Longrightarrow>
      \<exists>bs. msgpack_packb x = Some bs \<and> length bs \<le> wire_bound x \<and> mp_depth x \<le> length bs \<and>
           (\<forall>d rest. mp_depth x \<le> d \<longrightarrow> unpack_depth d (bs @ rest) = Some (x, rest))"
  shows "\<exists>body. concat_all (map msgpack_packb xs) = Some body \<and>
      length body \<le> sum_list (map wire_bound xs) \<and>
      foldr max (map mp_depth xs) 0 \<le> length body \<and>
      (\<forall>d rest. foldr max (map mp_depth xs) 0 \<le> d \<longrightarrow>
         unpack_items d (length xs) (body @ rest) = Some (xs, rest))"
  using assms
proof (induction xs)
  case Nil
  then show ?case by simp
next
  case (Cons x xs)
  from Cons.prems [of x] obtain bs where
    bs: "msgpack_packb x = Some bs" "length bs \<le> wire_bound x" "mp_depth x \<le> length bs"
    "\<And>d rest. mp_depth x \<le> d \<Longrightarrow> unpack_depth d (bs @ rest) = Some (x, rest)"
    by auto
  from Cons.IH Cons.prems obtain body where
    body: "concat_all (map msgpack_packb xs) = Some body"
    "length body \<le> sum_list (map wire_bound xs)"
    "foldr max (map mp_depth xs) 0 \<le> length body"
    "\<And>d rest. foldr max (map mp_depth xs) 0 \<le> d \<Longrightarrow>
         unpack_items d (length xs) (body @ rest) = Some (xs, rest)"
    by auto
  have 1: "concat_all (map msgpack_packb (x # xs)) = Some (bs @ body)"
    using bs(1) body(1) by (simp add: with_head_def)
  have 2: "length (bs @ body) \<le> sum_list (map wire_bound (x # xs))"
    using bs(2) body(2) by simp
  have 3: "foldr max (map mp_depth (x # xs)) 0 \<le> length (bs @ body)"
    using bs(3) body(3) by simp
  have 4: "unpack_items d (length (x # xs)) ((bs @ body) @ rest) = Some (x # xs, rest)"
    if "foldr max (map mp_depth (x # xs)) 0 \<le> d" for d rest
  proof -
    from that have dx: "mp_depth x \<le> d" and dxs: "foldr max (map mp_depth xs) 0 \<le> d"
      by simp_all
    show ?thesis
      using bs(4) [OF dx, of "body @ rest"] body(4) [OF dxs, of rest] by simp
  qed
  from 1 2 3 4 show ?case by blast
qed

lemma pairs_roundtrip:
  assumes "\<And>kv. kv \<in> set kvs \<Longrightarrow>
      (\<exists>bs. msgpack_packb (fst kv) = Some bs \<and> length bs \<le> wire_bound (fst kv) \<and>
            mp_depth (fst kv) \<le> length bs \<and>
           (\<forall>d rest. mp_depth (fst kv) \<le> d \<longrightarrow> unpack_depth d (bs @ rest) = Some (fst kv, rest))) \<and>
      (\<exists>bs. msgpack_packb (snd kv) = Some bs \<and> length bs \<le> wire_bound (snd kv) \<and>
            mp_depth (snd kv) \<le> length bs \<and>
           (\<forall>d rest. mp_depth (snd kv) \<le> d \<longrightarrow> unpack_depth d (bs @ rest) = Some (snd kv, rest)))"
  shows "\<exists>body.
      concat_all (map (\<lambda>kv. with_head (msgpack_packb (fst kv)) (msgpack_packb (snd kv))) kvs)
        = Some body \<and>
      length body \<le> sum_list (map (\<lambda>kv. wire_bound (fst kv) + wire_bound (snd kv)) kvs) \<and>
      foldr max (map (\<lambda>kv. max (mp_depth (fst kv)) (mp_depth (snd kv))) kvs) 0 \<le> length body \<and>
      (\<forall>d rest. foldr max (map (\<lambda>kv. max (mp_depth (fst kv)) (mp_depth (snd kv))) kvs) 0 \<le> d \<longrightarrow>
         unpack_pairs d (length kvs) (body @ rest) = Some (kvs, rest))"
  using assms
proof (induction kvs)
  case Nil
  then show ?case by simp
next
  case (Cons kv kvs)
  obtain k v where kv: "kv = (k, v)" by (cases kv)
  from Cons.prems [of kv] kv obtain ks vs where
    ks: "msgpack_packb k = Some ks" "length ks \<le> wire_bound k" "mp_depth k \<le> length ks"
    "\<And>d rest. mp_depth k \<le> d \<Longrightarrow> unpack_depth d (ks @ rest) = Some (k, rest)" and
    vs: "msgpack_packb v = Some vs" "length vs \<le> wire_bound v" "mp_depth v \<le> length vs"
    "\<And>d rest. mp_depth v \<le> d \<Longrightarrow> unpack_depth d (vs @ rest) = Some (v, rest)"
    by auto
  let ?pk = "\<lambda>kv. with_head (msgpack_packb (fst kv)) (msgpack_packb (snd kv))"
  let ?dp = "\<lambda>kv. max (mp_depth (fst kv)) (mp_depth (snd kv))"
  from Cons.IH Cons.prems obtain body where
    body: "concat_all (map ?pk kvs) = Some body"
    "length body \<le> sum_list (map (\<lambda>kv. wire_bound (fst kv) + wire_bound (snd kv)) kvs)"
    "foldr max (map ?dp kvs) 0 \<le> length body"
    "\<And>d rest. foldr max (map ?dp kvs) 0 \<le> d \<Longrightarrow>
         unpack_pairs d (length kvs) (body @ rest) = Some (kvs, rest)"
    by auto
  have 1: "concat_all (map ?pk (kv # kvs)) = Some ((ks @ vs) @ body)"
    using ks(1) vs(1) body(1) kv by (simp add: with_head_def)
  have 2: "length ((ks @ vs) @ body)
      \<le> sum_list (map (\<lambda>kv. wire_bound (fst kv) + wire_bound (snd kv)) (kv # kvs))"
    using ks(2) vs(2) body(2) kv by simp
  have 3: "foldr max (map ?dp (kv # kvs)) 0 \<le> length ((ks @ vs) @ body)"
    using ks(3) vs(3) body(3) kv by simp
  have 4: "unpack_pairs d (length (kv # kvs)) (((ks @ vs) @ body) @ rest) = Some (kv # kvs, rest)"
    if "foldr max (map ?dp (kv # kvs)) 0 \<le> d" for d rest
  proof -
    from that kv have dk: "mp_depth k \<le> d" and dv: "mp_depth v \<le> d"
      and dr: "foldr max (map ?dp kvs) 0 \<le> d"
      by simp_all
    show ?thesis
      using ks(4) [OF dk, of "vs @ body @ rest"] vs(4) [OF dv, of "body @ rest"]
        body(4) [OF dr, of rest] kv by simp
  qed
  from 1 2 3 4 show ?case by blast
qed

lemma msgpack_roundtrip:
  "wire_value v \<Longrightarrow>
     \<exists>bs. msgpack_packb v = Some bs \<and> length bs \<le> wire_bound v \<and> mp_depth v \<le> length bs \<and>
          (\<forall>d rest. mp_depth v \<le> d \<longrightarrow> unpack_depth d (bs @ rest) = Some (v, rest))"
proof (induction v)
  case MNone
  show ?case
  proof (intro exI conjI allI impI)
    show "msgpack_packb MNone = Some [0xc0]" by simp
    fix d :: nat and rest assume "mp_depth MNone \<le> d"
    then obtain d' where "d = Suc d'" by (cases d) auto
    then show "unpack_depth d ([0xc0] @ rest) = Some (MNone, rest)" by simp
  qed simp_all
next
  case (MBool b)
  show ?case
  proof (intro exI conjI allI impI)
    show "msgpack_packb (MBool b) = Some [if b then 0xc3 else 0xc2]" by simp
    fix d :: nat and rest assume "mp_depth (MBool b) \<le> d"
    then obtain d' where "d = Suc d'" by (cases d) auto
    then show "unpack_depth d ([if b then 0xc3 else 0xc2] @ rest) = Some (MBool b, rest)" by simp
  qed simp_all
next
  case (MInt i)
  then have r: "0 \<le> i" "nat i < 2 ^ 64" by (simp_all add: nat_less_iff)
  from pack_uint_Some [OF r(2)] obtain hs where
    hs: "pack_uint (nat i) = Some hs" "hs \<noteq> []" "length hs \<le> 9" by blast
  show ?case
  proof (intro exI conjI allI impI)
    show "msgpack_packb (MInt i) = Some hs" using r hs by simp
    show "length hs \<le> wire_bound (MInt i)" using hs by simp
    show "mp_depth (MInt i) \<le> length hs" using hs(2) by (cases hs) simp_all
    fix d :: nat and rest assume "mp_depth (MInt i) \<le> d"
    then obtain d' where "d = Suc d'" by (cases d) auto
    then show "unpack_depth d (hs @ rest) = Some (MInt i, rest)"
      using read_head_uint [OF hs(1), of rest] r by simp
  qed
next
  case (MBytes bs)
  then have r: "length bs < 2 ^ 32" by simp
  from pack_bin_head_Some [OF r] obtain hs where
    hs: "pack_bin_head (length bs) = Some hs" "hs \<noteq> []" "length hs \<le> 5" by blast
  show ?case
  proof (intro exI conjI allI impI)
    show "msgpack_packb (MBytes bs) = Some (hs @ bs)" using hs by (simp add: with_head_def)
    show "length (hs @ bs) \<le> wire_bound (MBytes bs)" using hs by simp
    show "mp_depth (MBytes bs) \<le> length (hs @ bs)" using hs(2) by (cases hs) simp_all
    fix d :: nat and rest assume "mp_depth (MBytes bs) \<le> d"
    then obtain d' where "d = Suc d'" by (cases d) auto
    then show "unpack_depth d ((hs @ bs) @ rest) = Some (MBytes bs, rest)"
      using read_head_bin [OF hs(1), of "bs @ rest"] by (simp add: read_bytes_append)
  qed
next
  case (MStr str)
  then have r: "length str < 2 ^ 32" "\<forall>c \<in> set str. (of_char c :: nat) < 128" by simp_all
  let ?bs = "map (\<lambda>c. of_nat (of_char c) :: byte) str"
  from pack_str_head_Some [OF r(1)] obtain hs where
    hs: "pack_str_head (length str) = Some hs" "hs \<noteq> []" "length hs \<le> 5" by blast
  show ?case
  proof (intro exI conjI allI impI)
    show "msgpack_packb (MStr str) = Some (hs @ ?bs)" using hs r(2) by (simp add: with_head_def)
    show "length (hs @ ?bs) \<le> wire_bound (MStr str)" using hs by simp
    show "mp_depth (MStr str) \<le> length (hs @ ?bs)" using hs(2) by (cases hs) simp_all
    fix d :: nat and rest assume "mp_depth (MStr str) \<le> d"
    then obtain d' where "d = Suc d'" by (cases d) auto
    moreover have "read_bytes (length str) (?bs @ rest) = Some (?bs, rest)"
      using read_bytes_append [of ?bs rest] by simp
    ultimately show "unpack_depth d ((hs @ ?bs) @ rest) = Some (MStr str, rest)"
      using read_head_str [OF hs(1), of "?bs @ rest"] ascii_text_chars [OF r(2)] by simp
  qed
next
  case (MList xs)
  then have r: "length xs < 2 ^ 32" and wv: "\<And>x. x \<in> set xs \<Longrightarrow> wire_value x" by simp_all
  from pack_arr_head_Some [OF r] obtain hs where
    hs: "pack_arr_head (length xs) = Some hs" "hs \<noteq> []" "length hs \<le> 5" by blast
  from items_roundtrip [of xs] MList.IH wv obtain body where
    body: "concat_all (map msgpack_packb xs) = Some body"
    "length body \<le> sum_list (map wire_bound xs)"
    "foldr max (map mp_depth xs) 0 \<le> length body"
    "\<And>d rest. foldr max (map mp_depth xs) 0 \<le> d \<Longrightarrow>
         unpack_items d (length xs) (body @ rest) = Some (xs, rest)"
    by blast
  show ?case
  proof (intro exI conjI allI impI)
    show "msgpack_packb (MList xs) = Some (hs @ body)" using hs body by (simp add: with_head_def)
    show "length (hs @ body) \<le> wire_bound (MList xs)" using hs body by simp
    show "mp_depth (MList xs) \<le> length (hs @ body)" using hs(2) body(3) by (cases hs) simp_all
    fix d :: nat and rest assume "mp_depth (MList xs) \<le> d"
    then obtain d' where "d = Suc d'" "foldr max (map mp_depth xs) 0 \<le> d'" by (cases d) auto
    then show "unpack_depth d ((hs @ body) @ rest) = Some (MList xs, rest)"
      using read_head_arr [OF hs(1), of "body @ rest"] body(4) [of d' rest] by simp
  qed
next
  case (MDict kvs)
  then have r: "length kvs < 2 ^ 32" and dist: "distinct (map fst kvs)"
    and wv: "\<And>kv. kv \<in> set kvs \<Longrightarrow> is_str (fst kv) \<and> wire_value (fst kv) \<and> wire_value (snd kv)"
    by simp_all
  from pack_map_head_Some [OF r] obtain hs where
    hs: "pack_map_head (length kvs) = Some hs" "hs \<noteq> []" "length hs \<le> 5" by blast
  let ?dp = "\<lambda>kv. max (mp_depth (fst kv)) (mp_depth (snd kv))"
  have ih: "(\<exists>bs. msgpack_packb (fst kv) = Some bs \<and> length bs \<le> wire_bound (fst kv) \<and>
            mp_depth (fst kv) \<le> length bs \<and>
           (\<forall>d rest. mp_depth (fst kv) \<le> d \<longrightarrow> unpack_depth d (bs @ rest) = Some (fst kv, rest))) \<and>
      (\<exists>bs. msgpack_packb (snd kv) = Some bs \<and> length bs \<le> wire_bound (snd kv) \<and>
            mp_depth (snd kv) \<le> length bs \<and>
           (\<forall>d rest. mp_depth (snd kv) \<le> d \<longrightarrow> unpack_depth d (bs @ rest) = Some (snd kv, rest)))"
    if "kv \<in> set kvs" for kv
  proof -
    obtain k v where kv: "kv = (k, v)" by (cases kv)
    have "k \<in> Basic_BNFs.fsts kv" "v \<in> Basic_BNFs.snds kv" using kv by simp_all
    with MDict.IH that wv [OF that] kv show ?thesis by auto
  qed
  from pairs_roundtrip [of kvs] ih obtain body where
    body: "concat_all (map (\<lambda>kv. with_head (msgpack_packb (fst kv)) (msgpack_packb (snd kv))) kvs)
        = Some body"
    "length body \<le> sum_list (map (\<lambda>kv. wire_bound (fst kv) + wire_bound (snd kv)) kvs)"
    "foldr max (map ?dp kvs) 0 \<le> length body"
    "\<And>d rest. foldr max (map ?dp kvs) 0 \<le> d \<Longrightarrow>
         unpack_pairs d (length kvs) (body @ rest) = Some (kvs, rest)"
    by blast
  have hk: "\<forall>kv \<in> set kvs. hashable (fst kv)"
  proof
    fix kv assume "kv \<in> set kvs"
    then have "is_str (fst kv)" using wv by blast
    then show "hashable (fst kv)" by (cases "fst kv") simp_all
  qed
  have dict: "dict_of kvs = Some (MDict kvs)"
    using dist hk by (simp add: dict_of_def)
  show ?case
  proof (intro exI conjI allI impI)
    show "msgpack_packb (MDict kvs) = Some (hs @ body)" using hs body by (simp add: with_head_def)
    show "length (hs @ body) \<le> wire_bound (MDict kvs)" using hs body by simp
    show "mp_depth (MDict kvs) \<le> length (hs @ body)" using hs(2) body(3) by (cases hs) simp_all
    fix d :: nat and rest assume "mp_depth (MDict kvs) \<le> d"
    then obtain d' where "d = Suc d'" "foldr max (map ?dp kvs) 0 \<le> d'" by (cases d) auto
    then show "unpack_depth d ((hs @ body) @ rest) = Some (MDict kvs, rest)"
      using read_head_map [OF hs(1), of "body @ rest"] body(4) [of d' rest] dict by simp
  qed
qed

lemma msgpack_ok_model: "msgpack_ok model_prims"
  unfolding msgpack_ok_def
proof (intro allI impI)
  fix v assume "wire_value v"
  from msgpack_roundtrip [OF this] obtain bs where
    bs: "msgpack_packb v = Some bs" "length bs \<le> wire_bound v" "mp_depth v \<le> length bs"
    "\<And>d rest. mp_depth v \<le> d \<Longrightarrow> unpack_depth d (bs @ rest) = Some (v, rest)"
    by blast
  have "msgpack_unpack (bs @ rest) = Some (v, length bs)" for rest
    using bs(4) [of "length (bs @ rest)" rest] bs(3) by (simp add: msgpack_unpack_def)
  with bs show "\<exists>bs. packb model_prims v = Some bs \<and> length bs \<le> wire_bound v \<and>
      (\<forall>rest. unpack model_prims (bs @ rest) = Some (v, length bs))"
    by (simp add: model_prims_def)
qed

lemma read_len_append:
  "read_len k s = Some (n, r) \<Longrightarrow> read_len k (s @ e) = Some (n, r @ e) \<and> length r \<le> length s"
  by (auto simp: read_len_def split: if_splits)

lemma with_len_append:
  "with_len k h s = Some (x, r) \<Longrightarrow> with_len k h (s @ e) = Some (x, r @ e) \<and> length r \<le> length s"
  by (auto simp: with_len_def dest: read_len_append)

lemma read_head_append:
  assumes "read_head s = Some (h, r)"
  shows "read_head (s @ e) = Some (h, r @ e) \<and> length r < length s"
proof (cases s)
  case Nil
  with assms show ?thesis by simp
next
  case (Cons c s')
  have w: "with_len k f s' = Some (h, r) \<Longrightarrow>
      with_len k f (s' @ e) = Some (h, r @ e) \<and> length r < Suc (length s')" for k f
    using with_len_append [of k f s' h r e] by simp
  from assms show ?thesis
    unfolding Cons append_Cons read_head.simps Let_def
    by (simp split: if_splits add: w)
qed

lemma read_bytes_append2:
  "read_bytes n s = Some (b, r) \<Longrightarrow> read_bytes n (s @ e) = Some (b, r @ e) \<and> length r \<le> length s"
  by (auto simp: read_bytes_def split: if_splits)


lemma unpack_append:
  "(\<forall>v r. unpack_depth d s = Some (v, r) \<longrightarrow>
      length r < length s \<and> (\<forall>d' e. d \<le> d' \<longrightarrow> unpack_depth d' (s @ e) = Some (v, r @ e)))"
  "(\<forall>xs r. unpack_items d1 n1 s1 = Some (xs, r) \<longrightarrow>
      length r \<le> length s1 \<and> (\<forall>d' e. d1 \<le> d' \<longrightarrow> unpack_items d' n1 (s1 @ e) = Some (xs, r @ e)))"
  "(\<forall>kvs r. unpack_pairs d2 n2 s2 = Some (kvs, r) \<longrightarrow>
      length r \<le> length s2 \<and> (\<forall>d' e. d2 \<le> d' \<longrightarrow> unpack_pairs d' n2 (s2 @ e) = Some (kvs, r @ e)))"
proof (induction d s and d1 n1 s1 and d2 n2 s2 rule: unpack_depth_unpack_items_unpack_pairs.induct)
  case (1 s)
  show ?case by simp
next
  case (2 d s)
  show ?case
  proof (intro allI impI)
    fix v r assume a: "unpack_depth (Suc d) s = Some (v, r)"
    then obtain h rest where h: "read_head s = Some (h, rest)"
      by (auto split: option.splits)
    note ha = read_head_append [OF h]
    have up: "unpack_depth (Suc d'') (s @ e) =
        (case (h, rest @ e) of
           (HVal v, rest) \<Rightarrow> Some (v, rest)
         | (HBin n, rest) \<Rightarrow> map_option (\<lambda>(bs, rest'). (MBytes bs, rest')) (read_bytes n rest)
         | (HStr n, rest) \<Rightarrow>
             (case read_bytes n rest of
                None \<Rightarrow> None
              | Some (bs, rest') \<Rightarrow> map_option (\<lambda>text. (MStr text, rest')) (ascii_text bs))
         | (HArr n, rest) \<Rightarrow> map_option (\<lambda>(xs, rest'). (MList xs, rest')) (unpack_items d'' n rest)
         | (HMap n, rest) \<Rightarrow>
             (case unpack_pairs d'' n rest of
                None \<Rightarrow> None
              | Some (kvs, rest') \<Rightarrow> map_option (\<lambda>dict. (dict, rest')) (dict_of kvs)))"
      for d'' e
      using ha [of e] by simp
    show "length r < length s \<and> (\<forall>d' e. Suc d \<le> d' \<longrightarrow> unpack_depth d' (s @ e) = Some (v, r @ e))"
    proof (cases h)
      case (HVal x)
      with a h have "v = x" "r = rest" by simp_all
      moreover have "unpack_depth d' (s @ e) = Some (x, rest @ e)" if "Suc d \<le> d'" for d' e
      proof -
        from that obtain d'' where "d' = Suc d''" by (cases d') auto
        then show ?thesis using up [of d'' e] HVal by simp
      qed
      ultimately show ?thesis using ha [of "[]"] by simp
    next
      case (HBin n)
      with a h obtain bs where b: "read_bytes n rest = Some (bs, r)" "v = MBytes bs"
        by auto
      note ba = read_bytes_append2 [OF b(1)]
      have "unpack_depth d' (s @ e) = Some (v, r @ e)" if "Suc d \<le> d'" for d' e
      proof -
        from that obtain d'' where "d' = Suc d''" by (cases d') auto
        then show ?thesis using up [of d'' e] HBin ba [of e] b(2) by simp
      qed
      then show ?thesis using ha [of "[]"] ba [of "[]"] by simp
    next
      case (HStr n)
      with a h obtain bs str where b: "read_bytes n rest = Some (bs, r)"
        "ascii_text bs = Some str" "v = MStr str"
        by (auto split: option.splits)
      note ba = read_bytes_append2 [OF b(1)]
      have "unpack_depth d' (s @ e) = Some (v, r @ e)" if "Suc d \<le> d'" for d' e
      proof -
        from that obtain d'' where "d' = Suc d''" by (cases d') auto
        then show ?thesis using up [of d'' e] HStr ba [of e] b(2,3) by simp
      qed
      then show ?thesis using ha [of "[]"] ba [of "[]"] by simp
    next
      case (HArr n)
      with a h obtain xs where b: "unpack_items d n rest = Some (xs, r)" "v = MList xs"
        by auto
      from "2.IH"(1) [OF h refl HArr] b(1)
      have ih: "length r \<le> length rest"
        "\<And>d' e. d \<le> d' \<Longrightarrow> unpack_items d' n (rest @ e) = Some (xs, r @ e)"
        by auto
      have "unpack_depth d' (s @ e) = Some (v, r @ e)" if "Suc d \<le> d'" for d' e
      proof -
        from that obtain d'' where "d' = Suc d''" "d \<le> d''" by (cases d') auto
        then show ?thesis using up [of d'' e] HArr ih(2) [of d'' e] b(2) by simp
      qed
      then show ?thesis using ha [of "[]"] ih(1) by simp
    next
      case (HMap n)
      with a h obtain kvs dict where b: "unpack_pairs d n rest = Some (kvs, r)"
        "dict_of kvs = Some dict" "v = dict"
        by (auto split: option.splits)
      from "2.IH"(2) [OF h refl HMap] b(1)
      have ih: "length r \<le> length rest"
        "\<And>d' e. d \<le> d' \<Longrightarrow> unpack_pairs d' n (rest @ e) = Some (kvs, r @ e)"
        by auto
      have "unpack_depth d' (s @ e) = Some (v, r @ e)" if "Suc d \<le> d'" for d' e
      proof -
        from that obtain d'' where "d' = Suc d''" "d \<le> d''" by (cases d') auto
        then show ?thesis using up [of d'' e] HMap ih(2) [of d'' e] b(2,3) by simp
      qed
      then show ?thesis using ha [of "[]"] ih(1) by simp
    qed
  qed
next
  case (3 d s)
  show ?case by simp
next
  case (4 d n s)
  show ?case
  proof (intro allI impI)
    fix xs r assume a: "unpack_items d (Suc n) s = Some (xs, r)"
    then obtain x rest ys where b: "unpack_depth d s = Some (x, rest)"
      "unpack_items d n rest = Some (ys, r)" "xs = x # ys"
      by (auto split: option.splits)
    from "4.IH"(1) b(1) have i1: "length rest < length s"
      "\<And>d' e. d \<le> d' \<Longrightarrow> unpack_depth d' (s @ e) = Some (x, rest @ e)"
      by auto
    from "4.IH"(2) [OF b(1) refl] b(2) have i2: "length r \<le> length rest"
      "\<And>d' e. d \<le> d' \<Longrightarrow> unpack_items d' n (rest @ e) = Some (ys, r @ e)"
      by auto
    show "length r \<le> length s \<and> (\<forall>d' e. d \<le> d' \<longrightarrow> unpack_items d' (Suc n) (s @ e) = Some (xs, r @ e))"
      using i1 i2 b(3) by simp
  qed
next
  case (5 d s)
  show ?case by simp
next
  case (6 d n s)
  show ?case
  proof (intro allI impI)
    fix kvs r assume a: "unpack_pairs d (Suc n) s = Some (kvs, r)"
    then obtain k rest v rest' ys where b: "unpack_depth d s = Some (k, rest)"
      "unpack_depth d rest = Some (v, rest')"
      "unpack_pairs d n rest' = Some (ys, r)" "kvs = (k, v) # ys"
      by (auto split: option.splits)
    from "6.IH"(1) b(1) have i1: "length rest < length s"
      "\<And>d' e. d \<le> d' \<Longrightarrow> unpack_depth d' (s @ e) = Some (k, rest @ e)"
      by auto
    from "6.IH"(2) [OF b(1) refl] b(2) have i2: "length rest' < length rest"
      "\<And>d' e. d \<le> d' \<Longrightarrow> unpack_depth d' (rest @ e) = Some (v, rest' @ e)"
      by auto
    from "6.IH"(3) [OF b(1) refl b(2) refl] b(3) have i3: "length r \<le> length rest'"
      "\<And>d' e. d \<le> d' \<Longrightarrow> unpack_pairs d' n (rest' @ e) = Some (ys, r @ e)"
      by auto
    show "length r \<le> length s \<and> (\<forall>d' e. d \<le> d' \<longrightarrow> unpack_pairs d' (Suc n) (s @ e) = Some (kvs, r @ e))"
      using i1 i2 i3 b(4) by simp
  qed
qed

lemma stream_reader_model: "stream_reader model_prims"
  unfolding stream_reader_def
proof (intro allI impI)
  fix s v k e assume "unpack model_prims s = Some (v, k)"
  then obtain r where r: "unpack_depth (length s) s = Some (v, r)" "k = length s - length r"
    by (auto simp: model_prims_def msgpack_unpack_def)
  from unpack_append(1) [of "length s" s] r(1)
  have "length r < length s" "unpack_depth (length (s @ e)) (s @ e) = Some (v, r @ e)"
    by auto
  then show "k \<le> length s \<and> unpack model_prims (s @ e) = Some (v, k)"
    using r(2) by (simp add: model_prims_def msgpack_unpack_def)
qed

lemma length_model_tag [simp]: "length (model_tag key nonce message) = 16"
  by (simp add: model_tag_def)

lemma model_secretbox_roundtrip:
  "model_secretbox m n k = Some c \<Longrightarrow> model_secretbox_open c n k = Some m"
  by (auto simp: model_secretbox_def model_secretbox_open_def split: if_splits)

lemma xor_not_swap: "(a :: byte) XOR NOT b = b XOR NOT a"
  by (simp add: bit_eq_iff bit_simps) blast

lemma shared_key_swap:
  "length a = length b \<Longrightarrow> shared_key a (map (\<lambda>x. NOT x) b) = shared_key b (map (\<lambda>x. NOT x) a)"
proof (induction a b rule: list_induct2)
  case Nil
  then show ?case by (simp add: shared_key_def)
next
  case (Cons x xs y ys)
  then show ?case using xor_not_swap [of x y] by (simp add: shared_key_def)
qed

lemma length_shared_key [simp]: "length (shared_key a b) = min (length a) (length b)"
  by (simp add: shared_key_def)

lemma nacl_ok_model: "nacl_ok model_prims"
proof -
  have 1: "\<forall>sk. length sk = 32 \<longrightarrow>
      (\<exists>pk. scalarmult_base model_prims sk = Some pk \<and> length pk = 32)"
    by (simp add: model_prims_def model_scalarmult_base_def)
  have 2: "\<forall>m n sk pk. length n = 24 \<and> length sk = 32 \<and> length pk = 32 \<longrightarrow>
      (\<exists>c. crypto_box model_prims m n sk pk = Some c \<and> length c = length m + 16)"
    by (simp add: model_prims_def model_box_def model_secretbox_def)
  have 3: "\<forall>m n a b pa pb c.
      scalarmult_base model_prims a = Some pa \<and> scalarmult_base model_prims b = Some pb \<and>
      crypto_box model_prims m n a pb = Some c \<longrightarrow> crypto_box_open model_prims c n b pa = Some m"
  proof (intro allI impI)
    fix m n a b pa pb c
    assume h: "scalarmult_base model_prims a = Some pa \<and> scalarmult_base model_prims b = Some pb \<and>
      crypto_box model_prims m n a pb = Some c"
    then have la: "length a = 32" and lb: "length b = 32"
      and pa: "pa = map (\<lambda>x. NOT x) a" and pb: "pb = map (\<lambda>x. NOT x) b"
      by (auto simp: model_prims_def model_scalarmult_base_def split: if_splits)
    from h have "model_secretbox m n (shared_key a pb) = Some c"
      by (auto simp: model_prims_def model_box_def split: if_splits)
    then have "model_secretbox_open c n (shared_key a pb) = Some m"
      by (rule model_secretbox_roundtrip)
    moreover have "shared_key a pb = shared_key b pa"
      unfolding pa pb using la lb by (intro shared_key_swap) simp
    ultimately show "crypto_box_open model_prims c n b pa = Some m"
      using la lb pa by (simp add: model_prims_def model_box_open_def)
  qed
  have 4: "\<forall>m n k. length n = 24 \<and> length k = 32 \<longrightarrow>
      (\<exists>c. crypto_secretbox model_prims m n k = Some c \<and> length c = length m + 16)"
    by (simp add: model_prims_def model_secretbox_def)
  have 5: "\<forall>m n k c. crypto_secretbox model_prims m n k = Some c \<longrightarrow>
      crypto_secretbox_open model_prims c n k = Some m"
    by (simp add: model_prims_def model_secretbox_roundtrip)
  from 1 2 3 4 5 show ?thesis
    unfolding nacl_ok_def by blast
qed

lemma entropy_ok_model: "entropy_ok model_entropy"
  by (simp add: entropy_ok_def model_entropy_def)


section \<open>Frames\<close>

lemma msgpack_okD:
  assumes "msgpack_ok P" and "wire_value v"
  obtains bs where "packb P v = Some bs" and "length bs \<le> wire_bound v"
    and "\<And>rest. unpack P (bs @ rest) = Some (v, length bs)"
  using assms unfolding msgpack_ok_def by blast

lemma stream_unpack_packed:
  assumes "msgpack_ok P" and "wire_value v" and "packb P v = Some bs"
  shows "stream_unpack P (bs @ rest) = Inr (v, rest)"
proof -
  from msgpack_okD [OF assms(1,2)] assms(3)
  have "unpack P (bs @ rest) = Some (v, length bs)" by auto
  then show ?thesis by (simp add: stream_unpack_def)
qed

lemma frame_roundtrip:
  assumes ok: "msgpack_ok P" and wv: "wire_value obj" and bound: "wire_bound obj < 2 ^ 64"
  shows "\<exists>frame body prefix.
      write_framed_msgpack P [] obj = Inr frame \<and>
      packb P obj = Some body \<and> packb P (MInt (int (length body))) = Some prefix \<and>
      frame = prefix @ body \<and>
      (\<forall>rest. read_framed_msgpack P (frame @ rest) = Inr (obj, rest) \<and>
         unpack P (frame @ rest) = Some (MInt (int (length body)), length prefix) \<and>
         unpack P (body @ rest) = Some (obj, length body))"
proof -
  from msgpack_okD [OF ok wv] obtain body where
    body: "packb P obj = Some body" "length body \<le> wire_bound obj"
    "\<And>rest. unpack P (body @ rest) = Some (obj, length body)"
    by blast
  have "wire_value (MInt (int (length body)))"
    using body(2) bound by simp
  from msgpack_okD [OF ok this] obtain prefix where
    prefix: "packb P (MInt (int (length body))) = Some prefix"
    "\<And>rest. unpack P (prefix @ rest) = Some (MInt (int (length body)), length prefix)"
    by blast
  have w: "write_framed_msgpack P [] obj = Inr (prefix @ body)"
    using body(1) prefix(1) by (simp add: write_framed_msgpack_def)
  have r: "read_framed_msgpack P ((prefix @ body) @ rest) = Inr (obj, rest)" for rest
    using prefix(2) [of "body @ rest"] body(3) [of rest]
    by (simp add: read_framed_msgpack_def stream_unpack_def)
  show ?thesis
    using w body(1,3) prefix r by (intro exI [of _ "prefix @ body"] exI [of _ body] exI [of _ prefix]) simp
qed

section \<open>The header that \<^verbatim>\<open>encrypt\<close> writes\<close>

lemma wire_value_make_keys:
  assumes "length ek = 32" and "length mk = 16" and "g < 2 ^ 32"
  shows "wire_value (make_keys nm ek g mk)" and "wire_bound (make_keys nm ek g mk) \<le> 117"
  using assms by (simp_all add: make_keys_def)

lemma map_fst_key_bundles: "map fst (key_bundles nm ek E g groups) = concat groups"
  by (induction groups arbitrary: g) (simp_all add: comp_def)

lemma key_bundles_member:
  "(r, keys) \<in> set (key_bundles nm ek E g0 groups) \<Longrightarrow>
     \<exists>g. g0 \<le> g \<and> g < g0 + length groups \<and> keys = make_keys nm ek g (rand_mac_key E g)"
proof (induction groups arbitrary: g0)
  case Nil
  then show ?case by simp
next
  case (Cons grp groups)
  from Cons.prems consider "keys = make_keys nm ek g0 (rand_mac_key E g0)"
    | "(r, keys) \<in> set (key_bundles nm ek E (Suc g0) groups)"
    by auto
  then show ?case
  proof cases
    case 1
    then show ?thesis by (intro exI [of _ g0]) simp
  next
    case 2
    from Cons.IH [OF 2] obtain g where "Suc g0 \<le> g" "g < Suc g0 + length groups"
      "keys = make_keys nm ek g (rand_mac_key E g)" by blast
    then show ?thesis by (intro exI [of _ g]) simp
  qed
qed

lemma recipient_nonce_Inr:
  "n < 2 ^ 64 \<Longrightarrow> recipient_nonce ns n = Inr (ns @ be_bytes 8 n)"
  by (simp add: recipient_nonce_def to_bytes_eq)

lemma chunk_nonce_Inr:
  "n < 2 ^ 192 \<Longrightarrow> chunk_nonce n = Inr (be_bytes 24 n)"
  by (simp add: chunk_nonce_def to_bytes_eq)

text \<open>What \<open>box_recipients\<close> appends: for each recipient the entry with the boxed
  packing of its keys, under the nonce of its number.\<close>

lemma box_recipients_entries:
  assumes nacl: "nacl_ok P" and mp: "msgpack_ok P"
    and sk: "length sender_private = 32" and ns: "length nonce_start = 16"
    and bundles: "\<And>r keys. (r, keys) \<in> set bundles \<Longrightarrow>
        length r = 32 \<and> wire_value keys \<and> wire_bound keys \<le> 117"
    and range: "start + length bundles \<le> 2 ^ 64"
  shows "\<exists>entries. box_recipients P sender_private nonce_start start acc bundles = Inr (acc @ entries) \<and>
      length entries = length bundles \<and>
      (\<forall>i < length bundles. \<exists>packed boxed.
          packb P (snd (bundles ! i)) = Some packed \<and>
          crypto_box P packed (nonce_start @ be_bytes 8 (start + i)) sender_private
            (fst (bundles ! i)) = Some boxed \<and>
          length boxed \<le> 133 \<and>
          entries ! i = MList [MBytes (fst (bundles ! i)), MBytes boxed])"
  using bundles range
proof (induction bundles arbitrary: start acc)
  case Nil
  then show ?case by simp
next
  case (Cons b bundles)
  obtain r keys where b: "b = (r, keys)" by (cases b)
  from Cons.prems(1) [of r keys] b have r: "length r = 32" and wv: "wire_value keys"
    and wb: "wire_bound keys \<le> 117" by simp_all
  from msgpack_okD [OF mp wv] obtain packed where
    packed: "packb P keys = Some packed" "length packed \<le> wire_bound keys" by blast
  from Cons.prems(2) have st: "start < 2 ^ 64" by simp
  have nonce: "recipient_nonce nonce_start start = Inr (nonce_start @ be_bytes 8 start)"
    using st by (rule recipient_nonce_Inr)
  have "length (nonce_start @ be_bytes 8 start) = 24" using ns by simp
  with nacl sk r obtain boxed where
    boxed: "crypto_box P packed (nonce_start @ be_bytes 8 start) sender_private r = Some boxed"
    "length boxed = length packed + 16"
    unfolding nacl_ok_def by blast
  have step: "box_recipients P sender_private nonce_start start acc (b # bundles) =
      box_recipients P sender_private nonce_start (Suc start)
        (acc @ [MList [MBytes r, MBytes boxed]]) bundles"
    using b packed(1) nonce boxed(1) by simp
  have "\<And>r keys. (r, keys) \<in> set bundles \<Longrightarrow>
        length r = 32 \<and> wire_value keys \<and> wire_bound keys \<le> 117"
    by (rule Cons.prems(1)) simp
  moreover have "Suc start + length bundles \<le> 2 ^ 64" using Cons.prems(2) by simp
  ultimately obtain entries where
    e: "box_recipients P sender_private nonce_start (Suc start)
          (acc @ [MList [MBytes r, MBytes boxed]]) bundles
        = Inr ((acc @ [MList [MBytes r, MBytes boxed]]) @ entries)"
    "length entries = length bundles"
    "\<forall>i < length bundles. \<exists>packed boxed.
          packb P (snd (bundles ! i)) = Some packed \<and>
          crypto_box P packed (nonce_start @ be_bytes 8 (Suc start + i)) sender_private
            (fst (bundles ! i)) = Some boxed \<and>
          length boxed \<le> 133 \<and>
          entries ! i = MList [MBytes (fst (bundles ! i)), MBytes boxed]"
    using Cons.IH [of "Suc start" "acc @ [MList [MBytes r, MBytes boxed]]"] by blast
  let ?entries = "MList [MBytes r, MBytes boxed] # entries"
  have "\<exists>packed boxed.
          packb P (snd ((b # bundles) ! i)) = Some packed \<and>
          crypto_box P packed (nonce_start @ be_bytes 8 (start + i)) sender_private
            (fst ((b # bundles) ! i)) = Some boxed \<and>
          length boxed \<le> 133 \<and>
          ?entries ! i = MList [MBytes (fst ((b # bundles) ! i)), MBytes boxed]"
    if "i < length (b # bundles)" for i
  proof (cases i)
    case 0
    then show ?thesis using b packed boxed wb by simp
  next
    case (Suc j)
    with that have "j < length bundles" by simp
    with e(3) Suc show ?thesis by simp
  qed
  moreover have "box_recipients P sender_private nonce_start start acc (b # bundles)
      = Inr (acc @ ?entries)" using step e(1) by simp
  moreover have "length ?entries = length (b # bundles)" using e(2) by simp
  ultimately show ?case by blast
qed

lemma sum_list_bounded:
  "(\<And>x. x \<in> set xs \<Longrightarrow> f x \<le> (c::nat)) \<Longrightarrow> sum_list (map f xs) \<le> c * length xs"
proof (induction xs)
  case Nil
  then show ?case by simp
next
  case (Cons x xs)
  then have "f x \<le> c" and "sum_list (map f xs) \<le> c * length xs" by simp_all
  then show ?case by simp
qed

lemma wire_value_make_header:
  assumes "length spk = 32" and "length ns = 16" and "length entries < 2 ^ 32"
    and "\<And>e. e \<in> set entries \<Longrightarrow> wire_value e \<and> wire_bound e \<le> 180"
  shows "wire_value (make_header spk ns entries)"
    and "wire_bound (make_header spk ns entries) < 2 ^ 64"
proof -
  show "wire_value (make_header spk ns entries)"
    using assms by (simp add: make_header_def FORMAT_VERSION_def)
  have "sum_list (map wire_bound entries) \<le> 180 * length entries"
    using assms(4) by (intro sum_list_bounded) simp
  also have "\<dots> < 180 * 2 ^ 32" using assms(3) by simp
  finally show "wire_bound (make_header spk ns entries) < 2 ^ 64"
    using assms(1,2) by (simp add: make_header_def)
qed

lemma encrypt_header_ok:
  assumes nacl: "nacl_ok P" and mp: "msgpack_ok P" and ent: "entropy_ok E"
    and sk: "length sender_private = 32"
    and pks: "\<And>pk. pk \<in> set (concat recipient_groups) \<Longrightarrow> length pk = 32"
    and ng: "length recipient_groups < 2 ^ 32"
    and nr: "length (concat recipient_groups) < 2 ^ 32"
  shows "\<exists>sender_public entries header_frame.
      scalarmult_base P sender_private = Some sender_public \<and> length sender_public = 32 \<and>
      encrypt_header P E sender_private recipient_groups = Inr header_frame \<and>
      (\<forall>rest. read_framed_msgpack P (header_frame @ rest) =
         Inr (make_header sender_public (rand_nonce_start E) entries, rest)) \<and>
      length entries = length (concat recipient_groups) \<and>
      (\<forall>i < length entries. \<exists>g packed boxed.
          g < length recipient_groups \<and>
          packb P (make_keys (length recipient_groups > 1) (rand_encryption_key E) g
                     (rand_mac_key E g)) = Some packed \<and>
          crypto_box P packed (rand_nonce_start E @ be_bytes 8 i) sender_private
            (concat recipient_groups ! i) = Some boxed \<and>
          entries ! i = MList [MBytes (concat recipient_groups ! i), MBytes boxed])"
proof -
  let ?nm = "length recipient_groups > 1"
  let ?ek = "rand_encryption_key E"
  let ?ns = "rand_nonce_start E"
  let ?bundles = "key_bundles ?nm ?ek E 0 recipient_groups"
  from ent have ek: "length ?ek = 32" and ns: "length ?ns = 16"
    and mk: "\<And>g. length (rand_mac_key E g) = 16"
    by (simp_all add: entropy_ok_def)
  from nacl sk obtain spk where spk: "scalarmult_base P sender_private = Some spk" "length spk = 32"
    unfolding nacl_ok_def by blast
  have fsts: "map fst ?bundles = concat recipient_groups"
    by (rule map_fst_key_bundles)
  then have len: "length ?bundles = length (concat recipient_groups)"
    by (metis length_map)
  have member: "\<exists>g. g < length recipient_groups \<and> keys = make_keys ?nm ?ek g (rand_mac_key E g)"
    if "(r, keys) \<in> set ?bundles" for r keys
    using key_bundles_member [OF that] by auto
  have b: "length r = 32 \<and> wire_value keys \<and> wire_bound keys \<le> 117"
    if "(r, keys) \<in> set ?bundles" for r keys
  proof -
    from that have "r \<in> set (map fst ?bundles)" by force
    then have "r \<in> set (concat recipient_groups)" unfolding fsts .
    then have "length r = 32" by (rule pks)
    moreover from member [OF that] obtain g where
      "g < length recipient_groups" "keys = make_keys ?nm ?ek g (rand_mac_key E g)" by blast
    then have "wire_value keys \<and> wire_bound keys \<le> 117"
      using wire_value_make_keys [of ?ek "rand_mac_key E g" g ?nm] ek mk ng by simp
    ultimately show ?thesis by simp
  qed
  have "0 + length ?bundles \<le> 2 ^ 64" using len nr by simp
  from box_recipients_entries [OF nacl mp sk ns b this, of "[]"] obtain entries where
    e: "box_recipients P sender_private ?ns 0 [] ?bundles = Inr entries"
    "length entries = length ?bundles"
    "\<forall>i < length ?bundles. \<exists>packed boxed.
          packb P (snd (?bundles ! i)) = Some packed \<and>
          crypto_box P packed (?ns @ be_bytes 8 (0 + i)) sender_private
            (fst (?bundles ! i)) = Some boxed \<and>
          length boxed \<le> 133 \<and>
          entries ! i = MList [MBytes (fst (?bundles ! i)), MBytes boxed]"
    by auto
  have fst_nth: "fst (?bundles ! i) = concat recipient_groups ! i" if "i < length ?bundles" for i
    using that fsts by (metis nth_map)
  have entry: "\<exists>g packed boxed.
          g < length recipient_groups \<and>
          packb P (make_keys ?nm ?ek g (rand_mac_key E g)) = Some packed \<and>
          crypto_box P packed (?ns @ be_bytes 8 i) sender_private
            (concat recipient_groups ! i) = Some boxed \<and>
          length boxed \<le> 133 \<and>
          entries ! i = MList [MBytes (concat recipient_groups ! i), MBytes boxed]"
    if "i < length entries" for i
  proof -
    from that e(2) have i: "i < length ?bundles" by simp
    with e(3) obtain packed boxed where
      pb: "packb P (snd (?bundles ! i)) = Some packed"
      "crypto_box P packed (?ns @ be_bytes 8 i) sender_private (fst (?bundles ! i)) = Some boxed"
      "length boxed \<le> 133"
      "entries ! i = MList [MBytes (fst (?bundles ! i)), MBytes boxed]"
      by auto
    have "(fst (?bundles ! i), snd (?bundles ! i)) \<in> set ?bundles"
      using i by simp
    from member [OF this] obtain g where
      g: "g < length recipient_groups" "snd (?bundles ! i) = make_keys ?nm ?ek g (rand_mac_key E g)"
      by blast
    show ?thesis
      using pb g fst_nth [OF i] by (intro exI [of _ g] exI [of _ packed] exI [of _ boxed]) simp
  qed
  have wv: "wire_value x \<and> wire_bound x \<le> 180" if "x \<in> set entries" for x
  proof -
    from that obtain i where i: "i < length entries" "x = entries ! i"
      by (auto simp: in_set_conv_nth)
    from entry [OF i(1)] obtain boxed where
      "length boxed \<le> 133" "x = MList [MBytes (concat recipient_groups ! i), MBytes boxed]"
      using i(2) by auto
    moreover have "concat recipient_groups ! i \<in> set (concat recipient_groups)"
      using i(1) e(2) len by (intro nth_mem) simp
    then have "length (concat recipient_groups ! i) = 32" by (rule pks)
    ultimately show ?thesis by simp
  qed
  have "length entries < 2 ^ 32" using e(2) len nr by simp
  from wire_value_make_header [OF spk(2) ns this wv]
  have hv: "wire_value (make_header spk ?ns entries)"
    and hb: "wire_bound (make_header spk ?ns entries) < 2 ^ 64" by simp_all
  from frame_roundtrip [OF mp hv hb] obtain frame where
    f: "write_framed_msgpack P [] (make_header spk ?ns entries) = Inr frame"
    "\<And>rest. read_framed_msgpack P (frame @ rest) = Inr (make_header spk ?ns entries, rest)"
    by blast
  have "encrypt_header P E sender_private recipient_groups = Inr frame"
    using spk(1) e(1) f(1) by (simp add: encrypt_header_def)
  moreover have "length entries = length (concat recipient_groups)" using e(2) len by simp
  ultimately show ?thesis
    using spk f(2) entry by blast
qed

section \<open>The chunk frames that \<^verbatim>\<open>encrypt\<close> writes\<close>

lemma make_chunk_map_ok:
  assumes nacl: "nacl_ok P" and ek: "length ek = 32" and n: "n < 2 ^ 192"
  shows "\<exists>boxed. crypto_secretbox P chunk (be_bytes 24 n) ek = Some boxed \<and>
      length boxed = length chunk + 16 \<and>
      make_chunk_map P ek nm mks n chunk =
        Inr (MDict [(MStr ''macs'', MList (chunk_macs P nm mks boxed)),
                    (MStr ''chunk'', MBytes boxed)])"
proof -
  have "length (be_bytes 24 n) = 24" by simp
  with nacl ek obtain boxed where
    "crypto_secretbox P chunk (be_bytes 24 n) ek = Some boxed" "length boxed = length chunk + 16"
    unfolding nacl_ok_def by blast
  then show ?thesis
    using chunk_nonce_Inr [OF n] by (simp add: make_chunk_map_def)
qed



section \<open>\<^verbatim>\<open>decrypt\<close> on what \<^verbatim>\<open>encrypt\<close> has written\<close>

lemma parse_header_make_header:
  assumes "read_framed_msgpack P input = Inr (make_header spk ns entries, stream)"
  shows "parse_header P input = Inr ((MBytes spk, MBytes ns, MList entries), stream)"
  using assms by (simp add: parse_header_def make_header_def FORMAT_VERSION_def)











section \<open>Where each exception can come from\<close>

lemma py_index_error: "py_index len k = Inl e \<Longrightarrow> e = TypeError \<or> e = IndexError"
  by (cases k) (auto split: if_splits)

lemma py_getitem_error:
  "py_getitem v k = Inl e \<Longrightarrow> e = TypeError \<or> e = KeyError \<or> e = IndexError"
  by (cases v) (auto split: if_splits option.splits sum.splits dest: py_index_error)

lemma py_get_error: "py_get v k = Inl e \<Longrightarrow> e = TypeError"
  by (cases v) (auto split: option.splits)

lemma to_bytes_error: "to_bytes k n = Inl e \<Longrightarrow> e = OverflowError"
  by (auto simp: to_bytes_def split: if_splits)

lemma read_framed_msgpack_error: "read_framed_msgpack P s = Inl e \<Longrightarrow> e = MalformedFrame"
  by (auto simp: read_framed_msgpack_def stream_unpack_def split: option.splits sum.splits)

lemma read_keys_error:
  "read_keys P packed = Inl e \<Longrightarrow>
     e = MalformedFrame \<or> e = TypeError \<or> e = KeyError \<or> e = IndexError"
  by (auto simp: read_keys_def split: option.splits sum.splits
      dest: py_getitem_error py_get_error)

lemma unbox_keys_error:
  assumes "unbox_keys P sk spk ns n boxed = Inl e"
  shows "e \<in> {OverflowError, TypeError, AuthenticationFailure, MalformedFrame, KeyError, IndexError}"
proof (cases "to_bytes n 8")
  case (Inl e')
  with assms to_bytes_error [OF Inl] show ?thesis by (simp add: unbox_keys_def)
next
  case (Inr counter)
  show ?thesis
  proof (cases "\<exists>a b c. ns = MBytes a \<and> boxed = MBytes b \<and> spk = MBytes c")
    case True
    then obtain a b c where "ns = MBytes a" "boxed = MBytes b" "spk = MBytes c" by blast
    with assms Inr show ?thesis
      by (auto simp: unbox_keys_def split: option.splits dest: read_keys_error)
  next
    case False
    with assms Inr have "e = TypeError"
      by (auto simp: unbox_keys_def split: mp.splits)
    then show ?thesis by simp
  qed
qed

lemma check_mac_error:
  "check_mac P g k macs boxed = Inl e \<Longrightarrow>
     e = MacMismatch \<or> e = TypeError \<or> e = KeyError \<or> e = IndexError"
  by (auto simp: check_mac_def Let_def split: if_splits sum.splits mp.splits
      dest: py_getitem_error)

lemma read_chunk_error:
  assumes "read_chunk P keys s n = Inl e"
  shows "e \<in> {OverflowError, MalformedFrame, TypeError, KeyError, IndexError, MacMismatch,
      AuthenticationFailure}"
proof -
  obtain ek g mk where keys: "keys = (ek, g, mk)" by (cases keys)
  show ?thesis
  proof (cases "chunk_nonce n")
    case (Inl e')
    with assms keys to_bytes_error [of n 24 e'] show ?thesis
      by (simp add: read_chunk_def chunk_nonce_def)
  next
    case nonce: (Inr nonce)
    show ?thesis
    proof (cases "read_framed_msgpack P s")
      case (Inl e')
      with assms keys nonce read_framed_msgpack_error [OF Inl] show ?thesis
        by (simp add: read_chunk_def)
    next
      case (Inr r)
      obtain cm s' where r: "r = (cm, s')" by (cases r)
      show ?thesis
      proof (cases "py_getitem cm (MStr ''macs'')")
        case (Inl e')
        with assms keys nonce Inr r py_getitem_error [OF Inl] show ?thesis
          by (auto simp: read_chunk_def)
      next
        case macs: (Inr macs)
        show ?thesis
        proof (cases "py_getitem cm (MStr ''chunk'')")
          case (Inl e')
          with assms keys nonce Inr r macs py_getitem_error [OF Inl] show ?thesis
            by (auto simp: read_chunk_def)
        next
          case bc: (Inr bc)
          show ?thesis
          proof (cases "check_mac P g mk macs bc")
            case (Inl e')
            with assms keys nonce Inr r macs bc check_mac_error [OF Inl] show ?thesis
              by (auto simp: read_chunk_def)
          next
            case ok: (Inr u)
            from assms keys nonce Inr r macs bc ok show ?thesis
              by (auto simp: read_chunk_def split: mp.splits option.splits)
          qed
        qed
      qed
    qed
  qed
qed

lemma chunk_loop_error:
  assumes "chunk_loop P keys s n out = Some (Inl e)"
  shows "e \<in> {OverflowError, MalformedFrame, TypeError, KeyError, IndexError, MacMismatch,
       AuthenticationFailure}"
proof -
  let ?S = "{OverflowError, MalformedFrame, TypeError, KeyError, IndexError, MacMismatch,
       AuthenticationFailure}"
  let ?Q = "\<lambda>(x :: (((prims \<times> (mp \<times> mp \<times> mp)) \<times> bytes) \<times> nat) \<times> bytes)
      (y :: error + bytes). \<forall>e. y = Inl e \<longrightarrow> e \<in> ?S"
  have "?Q ((((P, keys), s), n), out) (Inl e)"
  proof (rule chunk_loop.raw_induct [where Pa = ?Q, OF _ assms])
    fix loop and P :: prims and keys stream chunknum out' and y :: "error + bytes"
    assume IH: "\<And>keys stream chunknum out' b y.
        loop keys stream chunknum out' b = Some y \<Longrightarrow> \<forall>e. y = Inl e \<longrightarrow> e \<in> ?S"
      and body: "(case read_chunk P keys stream chunknum of
          Inl e \<Rightarrow> Some (Inl e)
        | Inr (chunk, stream') \<Rightarrow>
            if chunk = [] then Some (Inr out')
            else loop P keys stream' (Suc chunknum) (out' @ chunk)) = Some y"
    show "\<forall>e. y = Inl e \<longrightarrow> e \<in> ?S"
    proof (cases "read_chunk P keys stream chunknum")
      case (Inl e')
      with body have "y = Inl e'" by simp
      with read_chunk_error [OF Inl] show ?thesis by simp
    next
      case (Inr r)
      obtain chunk stream' where r: "r = (chunk, stream')" by (cases r)
      show ?thesis
      proof (cases "chunk = []")
        case True
        with body Inr r show ?thesis by auto
      next
        case False
        with body Inr r have "loop P keys stream' (Suc chunknum) (out' @ chunk) = Some y"
          by simp
        from IH [OF this] show ?thesis .
      qed
    qed
  qed
  then show ?thesis by simp
qed

section \<open>Finding the recipient\<close>

lemma recipient_loop_not_found:
  assumes "\<forall>entry \<in> set entries. \<exists>pub boxed_keys. entry = MList [pub, boxed_keys]"
  shows "recipient_loop entries rp n = Inl RecipientNotFound \<longleftrightarrow>
      (\<forall>boxed_keys. MList [MBytes rp, boxed_keys] \<notin> set entries)"
  using assms
proof (induction entries arbitrary: n)
  case Nil
  then show ?case by simp
next
  case (Cons entry entries)
  then obtain pub boxed_keys where e: "entry = MList [pub, boxed_keys]" by auto
  show ?case
  proof (cases "pub = MBytes rp")
    case True
    with e show ?thesis by (auto simp: py_eq_bytes_def)
  next
    case False
    with e Cons show ?thesis by (auto simp: py_eq_bytes_def)
  qed
qed

lemma recipient_loop_prefix:
  assumes "\<forall>entry \<in> set pre. \<exists>pub b. entry = MList [pub, b] \<and> pub \<noteq> MBytes rp"
  shows "recipient_loop (pre @ MList [MBytes rp, boxed_keys] # post) rp n
      = Inr (n + length pre, boxed_keys)"
  using assms
proof (induction pre arbitrary: n)
  case Nil
  then show ?case by (simp add: py_eq_bytes_def)
next
  case (Cons entry pre)
  then obtain pub b where e: "entry = MList [pub, b]" "pub \<noteq> MBytes rp" by auto
  with Cons show ?case by (simp add: py_eq_bytes_def)
qed

lemma decrypt_after_header:
  assumes "parse_header P input = Inr ((sender_public, nonce_start, MList entries), stream)"
    and "scalarmult_base P recipient_private = Some recipient_public"
  shows "decrypt P input recipient_private =
      (case recipient_loop entries recipient_public 0 of
         Inl e \<Rightarrow> Some (Inl e)
       | Inr (recipient_num, boxed_keys) \<Rightarrow>
           (case unbox_keys P recipient_private sender_public nonce_start recipient_num
                   boxed_keys of
              Inl e \<Rightarrow> Some (Inl e)
            | Inr keys \<Rightarrow> chunk_loop P keys stream 0 []))"
  using assms
  by (simp add: decrypt_def open_header_def find_recipient_def split: sum.splits)

lemma decrypt_after_match:
  assumes "parse_header P input = Inr ((sender_public, nonce_start, MList entries), stream)"
    and "scalarmult_base P recipient_private = Some recipient_public"
    and "recipient_loop entries recipient_public 0 = Inr (recipient_num, boxed_keys)"
  shows "decrypt P input recipient_private \<noteq> Some (Inl RecipientNotFound)"
proof
  assume a: "decrypt P input recipient_private = Some (Inl RecipientNotFound)"
  show False
  proof (cases "unbox_keys P recipient_private sender_public nonce_start recipient_num boxed_keys")
    case (Inl e)
    with a decrypt_after_header [OF assms(1,2)] assms(3) have "e = RecipientNotFound" by simp
    with unbox_keys_error [OF Inl] show False by simp
  next
    case (Inr keys)
    with a decrypt_after_header [OF assms(1,2)] assms(3)
    have "chunk_loop P keys stream 0 [] = Some (Inl RecipientNotFound)" by simp
    from chunk_loop_error [OF this] show False by simp
  qed
qed

text \<open>A header of the instance in which \<open>alice\<close> is listed twice.\<close>

lemma model_header_twice:
  "\<exists>header_frame sender_public b0 b1 b2.
     encrypt_header model_prims model_entropy jack_private
       [[bob_public, alice_public], [alice_public]] = Inr header_frame \<and>
     (\<forall>rest. parse_header model_prims (header_frame @ rest) =
        Inr ((MBytes sender_public, MBytes (rand_nonce_start model_entropy),
              MList [MList [MBytes bob_public, MBytes b0],
                     MList [MBytes alice_public, MBytes b1],
                     MList [MBytes alice_public, MBytes b2]]), rest))"
proof -
  let ?groups = "[[bob_public, alice_public], [alice_public]]"
  have sk: "length jack_private = 32" by (simp add: jack_private_def)
  have pks: "\<And>pk. pk \<in> set (concat ?groups) \<Longrightarrow> length pk = 32"
    by (auto simp: alice_public_def bob_public_def)
  have ng: "length ?groups < 2 ^ 32" and nr: "length (concat ?groups) < 2 ^ 32" by simp_all
  from encrypt_header_ok [OF nacl_ok_model msgpack_ok_model entropy_ok_model sk pks ng nr]
  obtain spk entries hf where
    hf: "encrypt_header model_prims model_entropy jack_private ?groups = Inr hf" and
    rd: "\<And>rest. read_framed_msgpack model_prims (hf @ rest) =
         Inr (make_header spk (rand_nonce_start model_entropy) entries, rest)" and
    len: "length entries = length (concat ?groups)" and
    ent: "\<forall>i < length entries. \<exists>boxed.
          entries ! i = MList [MBytes (concat ?groups ! i), MBytes boxed]"
    by blast
  from len obtain e0 e1 e2 where es: "entries = [e0, e1, e2]"
    by (cases entries; cases "tl entries"; cases "tl (tl entries)") auto
  from ent [rule_format, of 0] ent [rule_format, of 1] ent [rule_format, of 2] es
  obtain b0 b1 b2 where
    "e0 = MList [MBytes bob_public, MBytes b0]"
    "e1 = MList [MBytes alice_public, MBytes b1]"
    "e2 = MList [MBytes alice_public, MBytes b2]"
    by auto
  with es rd have "\<And>rest. parse_header model_prims (hf @ rest) =
        Inr ((MBytes spk, MBytes (rand_nonce_start model_entropy),
              MList [MList [MBytes bob_public, MBytes b0],
                     MList [MBytes alice_public, MBytes b1],
                     MList [MBytes alice_public, MBytes b2]]), rest)"
    by (intro parse_header_make_header) simp
  with hf show ?thesis by blast
qed

lemma model_keys_differ:
  "alice_public \<noteq> bob_public" "scalarmult_base model_prims jack_private = Some (replicate 32 0x55)"
  "replicate 32 0x55 \<noteq> alice_public" "replicate 32 0x55 \<noteq> bob_public"
  by (simp_all add: alice_public_def bob_public_def jack_private_def model_prims_def
      model_scalarmult_base_def)

section \<open>The round trip\<close>



section \<open>Nonces\<close>

text \<open>
  Claim C8. Within one call of \<^verbatim>\<open>encrypt\<close> the derived nonces are pairwise distinct in
  each family: two different recipient numbers (below \<open>2 ^ 64\<close>, where \<^verbatim>\<open>to_bytes(8)\<close>
  does not overflow) give different unwrap nonces, each the nonce start followed by the
  8-byte big-endian number, and two different chunk numbers (below \<open>2 ^ 192\<close>) give
  different 24-byte big-endian chunk nonces.
\<close>

theorem nonces_distinct:
  assumes "i \<noteq> j"
  shows "(i < 2 ^ 64 \<and> j < 2 ^ 64 \<longrightarrow>
            (\<exists>a b. recipient_nonce nonce_start i = Inr a \<and> recipient_nonce nonce_start j = Inr b \<and>
                   length a = length nonce_start + 8 \<and> a \<noteq> b)) \<and>
         (i < 2 ^ 192 \<and> j < 2 ^ 192 \<longrightarrow>
            (\<exists>a b. chunk_nonce i = Inr a \<and> chunk_nonce j = Inr b \<and> length a = 24 \<and> a \<noteq> b))"
proof (intro conjI impI)
  assume r: "i < 2 ^ 64 \<and> j < 2 ^ 64"
  then have i: "to_bytes i 8 = Inr (be_bytes 8 i)" and j: "to_bytes j 8 = Inr (be_bytes 8 j)"
    by (simp_all add: to_bytes_eq)
  have "be_bytes 8 i \<noteq> be_bytes 8 j"
    using to_bytes_inj [of i 8 "be_bytes 8 i" j] i j assms by auto
  then show "\<exists>a b. recipient_nonce nonce_start i = Inr a \<and> recipient_nonce nonce_start j = Inr b \<and>
                   length a = length nonce_start + 8 \<and> a \<noteq> b"
    using i j by (simp add: recipient_nonce_def)
next
  assume r: "i < 2 ^ 192 \<and> j < 2 ^ 192"
  then have i: "to_bytes i 24 = Inr (be_bytes 24 i)" and j: "to_bytes j 24 = Inr (be_bytes 24 j)"
    by (simp_all add: to_bytes_eq)
  have "be_bytes 24 i \<noteq> be_bytes 24 j"
    using to_bytes_inj [of i 24 "be_bytes 24 i" j] i j assms by auto
  then show "\<exists>a b. chunk_nonce i = Inr a \<and> chunk_nonce j = Inr b \<and> length a = 24 \<and> a \<noteq> b"
    using i j by (simp add: chunk_nonce_def)
qed

theorem nonces_distinct_witness:
  "(0::nat) \<noteq> 1 \<and>
   (\<exists>a b. recipient_nonce [7, 7] 0 = Inr a \<and> recipient_nonce [7, 7] 1 = Inr b \<and>
          length a = 10 \<and> a \<noteq> b) \<and>
   (\<exists>a b. chunk_nonce 0 = Inr a \<and> chunk_nonce 1 = Inr b \<and> length a = 24 \<and> a \<noteq> b)"
  using nonces_distinct [of 0 1 "[7, 7]"] by simp

section \<open>The length prefix\<close>

text \<open>
  Claim C3 says that \<^verbatim>\<open>read_framed_msgpack\<close> reads as the body exactly as many bytes as
  the decoded length prefix says. The code decodes the prefix and discards it (``We
  discard the frame length and stream on''): the body is whatever the second
  \<^verbatim>\<open>umsgpack.unpack\<close> reads. On the stream \<open>05 01 02 03 04 05\<close> the prefix is 5 and the
  body is the one byte \<open>01\<close>.
\<close>

theorem length_prefix_counterexample:
  "frame_length_prefix model_prims [0x05, 0x01, 0x02, 0x03, 0x04, 0x05] = Some (MInt 5) \<and>
   frame_body_consumed model_prims [0x05, 0x01, 0x02, 0x03, 0x04, 0x05] = Some 1 \<and>
   read_framed_msgpack model_prims [0x05, 0x01, 0x02, 0x03, 0x04, 0x05]
     = Inr (MInt 1, [0x02, 0x03, 0x04, 0x05])"
  by (simp add: frame_length_prefix_def frame_body_consumed_def read_framed_msgpack_def
      stream_unpack_def model_prims_def msgpack_unpack_def)

text \<open>
  Claim C3, amended. \<^verbatim>\<open>read_framed_msgpack\<close> decodes the length prefix, discards it, and
  decodes one self-delimiting object from the bytes that follow; the bytes read as the body
  are the bytes of that object, whatever the prefix says. On a frame that
  \<^verbatim>\<open>write_framed_msgpack\<close> has written the two agree: the prefix is the length of the
  body, the body read is that many bytes, and the object comes back.
\<close>

theorem length_prefix_discarded:
  "(read_framed_msgpack P stream = Inr (obj, stream') \<longleftrightarrow>
      (\<exists>prefix k body_len.
          unpack P stream = Some (prefix, k) \<and>
          unpack P (drop k stream) = Some (obj, body_len) \<and>
          stream' = drop body_len (drop k stream))) \<and>
   (msgpack_ok P \<and> wire_value obj \<and> wire_bound obj < 2 ^ 64 \<longrightarrow>
      (\<exists>frame n. write_framed_msgpack P [] obj = Inr frame \<and>
         (\<forall>rest. read_framed_msgpack P (frame @ rest) = Inr (obj, rest) \<and>
                 frame_length_prefix P (frame @ rest) = Some (MInt (int n)) \<and>
                 frame_body_consumed P (frame @ rest) = Some n)))"
proof (intro conjI impI)
  show "read_framed_msgpack P stream = Inr (obj, stream') \<longleftrightarrow>
      (\<exists>prefix k body_len.
          unpack P stream = Some (prefix, k) \<and>
          unpack P (drop k stream) = Some (obj, body_len) \<and>
          stream' = drop body_len (drop k stream))"
    by (auto simp: read_framed_msgpack_def stream_unpack_def split: option.splits)
next
  assume a: "msgpack_ok P \<and> wire_value obj \<and> wire_bound obj < 2 ^ 64"
  then have ok: "msgpack_ok P" and wv: "wire_value obj" and wb: "wire_bound obj < 2 ^ 64"
    by simp_all
  from frame_roundtrip [OF ok wv wb] obtain frame body prefix where
    f: "write_framed_msgpack P [] obj = Inr frame" "frame = prefix @ body"
    "\<And>rest. read_framed_msgpack P (frame @ rest) = Inr (obj, rest)"
    "\<And>rest. unpack P (frame @ rest) = Some (MInt (int (length body)), length prefix)"
    "\<And>rest. unpack P (body @ rest) = Some (obj, length body)"
    by blast
  have "frame_length_prefix P (frame @ rest) = Some (MInt (int (length body)))" for rest
    using f(4) [of rest] by (simp add: frame_length_prefix_def)
  moreover have "frame_body_consumed P (frame @ rest) = Some (length body)" for rest
    using f(4) [of rest] f(5) [of rest] f(2) by (simp add: frame_body_consumed_def)
  ultimately show "\<exists>frame n. write_framed_msgpack P [] obj = Inr frame \<and>
         (\<forall>rest. read_framed_msgpack P (frame @ rest) = Inr (obj, rest) \<and>
                 frame_length_prefix P (frame @ rest) = Some (MInt (int n)) \<and>
                 frame_body_consumed P (frame @ rest) = Some n)"
    using f(1,3) by blast
qed

theorem length_prefix_discarded_witness:
  "msgpack_ok model_prims \<and> wire_value (MBytes [1, 2, 3]) \<and>
   (\<exists>frame n. write_framed_msgpack model_prims [] (MBytes [1, 2, 3]) = Inr frame \<and>
         (\<forall>rest. read_framed_msgpack model_prims (frame @ rest) = Inr (MBytes [1, 2, 3], rest) \<and>
                 frame_length_prefix model_prims (frame @ rest) = Some (MInt (int n)) \<and>
                 frame_body_consumed model_prims (frame @ rest) = Some n))"
  using length_prefix_discarded [of model_prims "[]" "MBytes [1, 2, 3]" "[]"] msgpack_ok_model
  by simp

section \<open>The chunk frames\<close>




section \<open>MAC fields\<close>

text \<open>
  Claim C6. In a call of \<^verbatim>\<open>encrypt\<close> the keys of every recipient hold \<^verbatim>\<open>mac_group\<close> and
  \<^verbatim>\<open>mac_key\<close> besides \<^verbatim>\<open>encryption_key\<close>, and every chunk record has a \<^verbatim>\<open>macs\<close> list
  that is not empty, exactly when there is more than one recipient group; with one group
  (or none) the keys hold \<^verbatim>\<open>encryption_key\<close> only and every \<^verbatim>\<open>macs\<close> list is empty.
  \<open>key_bundles\<close>, \<open>group_mac_keys\<close> and \<open>make_chunk_map\<close> are taken at the arguments
  \<^verbatim>\<open>encrypt\<close> gives them.
\<close>

theorem mac_fields_iff_groups:
  "(\<forall>kb \<in> set (key_bundles (length recipient_groups > 1) (rand_encryption_key E) E 0
                      recipient_groups).
      py_iter (snd kb) =
        Inr (if length recipient_groups > 1
             then [MStr ''encryption_key'', MStr ''mac_group'', MStr ''mac_key'']
             else [MStr ''encryption_key''])) \<and>
   (\<forall>chunknum chunk chunk_map.
      make_chunk_map P (rand_encryption_key E) (length recipient_groups > 1)
        (group_mac_keys (length recipient_groups > 1) E recipient_groups) chunknum chunk
        = Inr chunk_map \<longrightarrow>
      (\<exists>macs boxed_chunk.
          chunk_map = MDict [(MStr ''macs'', MList macs), (MStr ''chunk'', MBytes boxed_chunk)] \<and>
          length macs = (if length recipient_groups > 1 then length recipient_groups else 0) \<and>
          (macs \<noteq> [] \<longleftrightarrow> length recipient_groups > 1)))"
proof (intro conjI ballI allI impI)
  fix kb
  assume "kb \<in> set (key_bundles (length recipient_groups > 1) (rand_encryption_key E) E 0
                      recipient_groups)"
  then have "(fst kb, snd kb) \<in> set (key_bundles (length recipient_groups > 1)
      (rand_encryption_key E) E 0 recipient_groups)" by simp
  from key_bundles_member [OF this] obtain g where
    "snd kb = make_keys (length recipient_groups > 1) (rand_encryption_key E) g
       (rand_mac_key E g)" by blast
  then show "py_iter (snd kb) =
        Inr (if length recipient_groups > 1
             then [MStr ''encryption_key'', MStr ''mac_group'', MStr ''mac_key'']
             else [MStr ''encryption_key''])"
    by (simp add: make_keys_def)
next
  fix chunknum chunk chunk_map
  assume "make_chunk_map P (rand_encryption_key E) (length recipient_groups > 1)
        (group_mac_keys (length recipient_groups > 1) E recipient_groups) chunknum chunk
        = Inr chunk_map"
  then obtain boxed_chunk where
    cm: "chunk_map = MDict [(MStr ''macs'', MList (chunk_macs P (length recipient_groups > 1)
            (group_mac_keys (length recipient_groups > 1) E recipient_groups) boxed_chunk)),
          (MStr ''chunk'', MBytes boxed_chunk)]"
    by (auto simp: make_chunk_map_def split: sum.splits option.splits)
  let ?macs = "chunk_macs P (length recipient_groups > 1)
            (group_mac_keys (length recipient_groups > 1) E recipient_groups) boxed_chunk"
  have len: "length ?macs = (if length recipient_groups > 1 then length recipient_groups else 0)"
    by (simp add: chunk_macs_def group_mac_keys_def)
  then have "?macs \<noteq> [] \<longleftrightarrow> length recipient_groups > 1"
    by (cases "length recipient_groups > 1") auto
  with cm len show "\<exists>macs boxed_chunk.
          chunk_map = MDict [(MStr ''macs'', MList macs), (MStr ''chunk'', MBytes boxed_chunk)] \<and>
          length macs = (if length recipient_groups > 1 then length recipient_groups else 0) \<and>
          (macs \<noteq> [] \<longleftrightarrow> length recipient_groups > 1)"
    by blast
qed

theorem mac_fields_iff_groups_witness:
  "key_bundles True (rand_encryption_key model_entropy) model_entropy 0
     [[alice_public], [bob_public]] \<noteq> [] \<and>
   (\<forall>kb \<in> set (key_bundles True (rand_encryption_key model_entropy) model_entropy 0
                  [[alice_public], [bob_public]]).
      py_iter (snd kb) = Inr [MStr ''encryption_key'', MStr ''mac_group'', MStr ''mac_key'']) \<and>
   (\<exists>chunk_map macs boxed_chunk.
      make_chunk_map model_prims (rand_encryption_key model_entropy) True
        (group_mac_keys True model_entropy [[alice_public], [bob_public]]) 0 [0x68, 0x69]
        = Inr chunk_map \<and>
      chunk_map = MDict [(MStr ''macs'', MList macs), (MStr ''chunk'', MBytes boxed_chunk)] \<and>
      length macs = 2 \<and> macs \<noteq> [])"
proof -
  have ek: "length (rand_encryption_key model_entropy) = 32"
    by (simp add: model_entropy_def)
  from make_chunk_map_ok [OF nacl_ok_model ek, of 0 "[0x68, 0x69]" True
      "group_mac_keys True model_entropy [[alice_public], [bob_public]]"]
  obtain chunk_map where
    "make_chunk_map model_prims (rand_encryption_key model_entropy) True
        (group_mac_keys True model_entropy [[alice_public], [bob_public]]) 0 [0x68, 0x69]
        = Inr chunk_map"
    by auto
  with mac_fields_iff_groups [of "[[alice_public], [bob_public]]" model_entropy model_prims]
  show ?thesis by (simp add: numeral_2_eq_2)
qed

end
